theory Spec2Isabelle
  imports Main "HOL-Library.Word"
begin

unbundle bit_operations_syntax

section \<open>Go values\<close>

text \<open>
  A Go \<open>byte\<close> is an 8-bit word: shifts on it drop the bits that leave the byte.
  Values of type \<open>int64\<close>, \<open>int\<close> and \<open>uint\<close> are integers. Inside the bitmap package
  every position and length is bounded by eight times the length of a slice, so its
  arithmetic is written on \<open>int\<close> as it stands; in the address calculator, where the
  configuration decides the magnitudes, the wrap-around of \<open>int64\<close> is written out
  (\<open>int64\<close> below).
\<close>

type_synonym byte = "8 word"

datatype panic = IllegalArg | IndexOutOfRange | DivideByZero | MakeSliceLen | NilDereference

text \<open>Reading \<open>bm[i]\<close> and the assignments \<open>bm[i] = v\<close>, \<open>bm[i] |= b\<close>,
  \<open>bm[i] &= ^b\<close>: the run-time panics when the index is outside the slice.\<close>

definition index :: "byte list \<Rightarrow> int \<Rightarrow> panic + byte" where
  "index bm i = (if 0 \<le> i \<and> i < int (length bm) then Inr (bm ! nat i) else Inl IndexOutOfRange)"

definition assign :: "byte list \<Rightarrow> int \<Rightarrow> byte \<Rightarrow> panic + byte list" where
  "assign bm i v = (if 0 \<le> i \<and> i < int (length bm) then Inr (bm[nat i := v]) else Inl IndexOutOfRange)"

definition assign_or :: "byte list \<Rightarrow> int \<Rightarrow> byte \<Rightarrow> panic + byte list" where
  "assign_or bm i b =
     (if 0 \<le> i \<and> i < int (length bm) then Inr (bm[nat i := bm ! nat i OR b]) else Inl IndexOutOfRange)"

definition assign_and_not :: "byte list \<Rightarrow> int \<Rightarrow> byte \<Rightarrow> panic + byte list" where
  "assign_and_not bm i b =
     (if 0 \<le> i \<and> i < int (length bm) then Inr (bm[nat i := bm ! nat i AND NOT b]) else Inl IndexOutOfRange)"

text \<open>The conversion \<open>uint(x)\<close> of a signed value, used for shift counts: a negative value
  becomes a count of at least \<open>2^63\<close>, which shifts every bit out.\<close>

definition to_uint :: "int \<Rightarrow> nat" where
  "to_uint x = nat (take_bit 64 x)"

section \<open>Package bitmap\<close>

text \<open>Slot \<open>s\<close> of a bitmap is bit \<open>7 - s mod 8\<close> of byte \<open>s div 8\<close>: the first bit of a
  byte is its most significant one. A set bit is an occupied slot.\<close>

definition slot :: "byte list \<Rightarrow> int \<Rightarrow> bool" where
  "slot bm s = bit (bm ! nat (s div 8)) (nat (7 - s mod 8))"

subsection \<open>Finding a free run\<close>

text \<open>The inner loop \<open>for ; i>0; i-- { if (c & b)==0 { break }; b>>=1 }\<close>, started at \<open>i\<close>;
  its result is the final \<open>i\<close>.\<close>

fun scan :: "byte \<Rightarrow> byte \<Rightarrow> nat \<Rightarrow> nat" where
  "scan c b 0 = 0"
| "scan c b (Suc i) = (if c AND b = 0 then Suc i else scan c (drop_bit 1 b) i)"

text \<open>\<open>findFreeSpot8\<close>: the loop over the bytes of \<open>bm\<close> from index \<open>j\<close> on. \<open>lng\<close> and \<open>i\<close>
  are of type \<open>uint\<close>; the caller passes \<open>lng \<le> 8\<close>.\<close>

function findFreeSpot8_from :: "byte list \<Rightarrow> nat \<Rightarrow> nat \<Rightarrow> int \<times> bool" where
  "findFreeSpot8_from bm lng j =
     (if j < length bm then
        (let B = push_bit (to_uint (8 - int lng)) (0xff :: byte);
             i = scan (bm ! j) B 8
         in if i \<ge> lng then (push_bit 3 (int j) OR int (8 - i), True)
            else if i > 0 \<and> int j < int (length bm) - 1
                    \<and> (bm ! (j + 1)) AND push_bit (8 - i) B = 0
                 then (push_bit 3 (int j) OR int (8 - i), True)
            else findFreeSpot8_from bm lng (j + 1))
      else (0, False))"
  by pat_completeness auto
termination
  by (relation "measure (\<lambda>(bm, lng, j). length bm - j)") auto

definition findFreeSpot8 :: "byte list \<Rightarrow> nat \<Rightarrow> int \<times> bool" where
  "findFreeSpot8 bm lng = findFreeSpot8_from bm lng 0"

text \<open>\<open>matchAligned\<close>: first the loop over the \<open>n\<close> whole bytes, then the remaining bits.\<close>

fun matchAligned_bytes :: "byte list \<Rightarrow> int \<Rightarrow> nat \<Rightarrow> panic + (int option)" where
  "matchAligned_bytes bm bipos 0 = Inr (Some bipos)"
| "matchAligned_bytes bm bipos (Suc j) =
     (case index bm bipos of
        Inl e \<Rightarrow> Inl e
      | Inr c \<Rightarrow> if c \<noteq> 0 then Inr None else matchAligned_bytes bm (bipos + 1) j)"

definition matchAligned :: "byte list \<Rightarrow> int \<Rightarrow> int \<Rightarrow> panic + bool" where
  "matchAligned bm bipos lng =
     (let n = drop_bit 3 lng; l = int (length bm)
      in if bipos + n > l then Inr False
         else case matchAligned_bytes bm bipos (nat n) of
                Inl e \<Rightarrow> Inl e
              | Inr None \<Rightarrow> Inr False
              | Inr (Some bipos') \<Rightarrow>
                  (let m = lng AND 7
                   in if m = 0 then Inr True
                      else let b = push_bit (to_uint (8 - m)) (0xff :: byte)
                           in if bipos' \<ge> l then Inr False
                              else case index bm bipos' of
                                     Inl e \<Rightarrow> Inl e
                                   | Inr c \<Rightarrow> Inr (c AND b = 0)))"

text \<open>\<open>FindFreeSpot\<close> for \<open>lng > 8\<close>: the loop over the bytes from index \<open>j\<close> on.\<close>

function FindFreeSpot_from :: "byte list \<Rightarrow> int \<Rightarrow> nat \<Rightarrow> panic + (int \<times> bool)" where
  "FindFreeSpot_from bm lng j =
     (if j < length bm then
        (let i = scan (bm ! j) 0xff 8
         in if i = 0 then FindFreeSpot_from bm lng (j + 1)
            else case matchAligned bm (int (j + 1)) (lng - int i) of
                   Inl e \<Rightarrow> Inl e
                 | Inr True \<Rightarrow> Inr (push_bit 3 (int j) OR int (8 - i), True)
                 | Inr False \<Rightarrow> FindFreeSpot_from bm lng (j + 1))
      else Inr (0, False))"
  by pat_completeness auto
termination
  by (relation "measure (\<lambda>(bm, lng, j). length bm - j)") auto

definition FindFreeSpot :: "byte list \<Rightarrow> int \<Rightarrow> panic + (int \<times> bool)" where
  "FindFreeSpot bm lng =
     (if lng < 0 then Inl IllegalArg
      else if lng \<le> 8 then Inr (findFreeSpot8 bm (nat lng))
      else FindFreeSpot_from bm lng 0)"

subsection \<open>Marking and clearing a run\<close>

text \<open>The loop \<open>for lng>=8 { bm[pos>>3] = v; pos += 8; lng -= 8 }\<close> with \<open>v = 0xff\<close> in
  \<open>WriteInUse\<close> and \<open>v = 0\<close> in \<open>WriteFree\<close>; it yields the slice, \<open>pos\<close> and \<open>lng\<close>.\<close>

function fill_bytes :: "byte \<Rightarrow> byte list \<Rightarrow> int \<Rightarrow> int \<Rightarrow> panic + (byte list \<times> int \<times> int)" where
  "fill_bytes v bm pos lng =
     (if lng \<ge> 8 then
        (case assign bm (drop_bit 3 pos) v of
           Inl e \<Rightarrow> Inl e
         | Inr bm' \<Rightarrow> fill_bytes v bm' (pos + 8) (lng - 8))
      else Inr (bm, pos, lng))"
  by pat_completeness auto
termination
  by (relation "measure (\<lambda>(v, bm, pos, lng). nat lng)") auto

definition WriteInUse :: "byte list \<Rightarrow> int \<Rightarrow> int \<Rightarrow> panic + byte list" where
  "WriteInUse bm pos lng =
     (if pos < 0 \<or> lng < 0 then Inl IllegalArg
      else let n = pos AND 7
           in if drop_bit 3 (lng + n) = 0 then
                assign_or bm (drop_bit 3 pos)
                  (drop_bit (to_uint n) (push_bit (to_uint (8 - lng)) (0xff :: byte)))
              else
                case (if n \<noteq> 0 then
                        (case assign_or bm (drop_bit 3 pos) (drop_bit (to_uint n) (0xff :: byte)) of
                           Inl e \<Rightarrow> Inl e
                         | Inr bm1 \<Rightarrow> Inr (bm1, pos + (8 - n), lng - (8 - n)))
                      else Inr (bm, pos, lng)) of
                  Inl e \<Rightarrow> Inl e
                | Inr (bm1, pos1, lng1) \<Rightarrow>
                    (case fill_bytes 0xff bm1 pos1 lng1 of
                       Inl e \<Rightarrow> Inl e
                     | Inr (bm2, pos2, lng2) \<Rightarrow>
                         if lng2 > 0 then
                           assign_or bm2 (drop_bit 3 pos2) (push_bit (to_uint (8 - lng2)) (0xff :: byte))
                         else Inr bm2))"

definition WriteFree :: "byte list \<Rightarrow> int \<Rightarrow> int \<Rightarrow> panic + byte list" where
  "WriteFree bm pos lng =
     (if pos < 0 \<or> lng < 0 then Inl IllegalArg
      else let n = pos AND 7
           in if drop_bit 3 (lng + n) = 0 then
                assign_and_not bm (drop_bit 3 pos)
                  (drop_bit (to_uint n) (push_bit (to_uint (8 - lng)) (0xff :: byte)))
              else
                case (if n \<noteq> 0 then
                        (case assign_and_not bm (drop_bit 3 pos) (drop_bit (to_uint n) (0xff :: byte)) of
                           Inl e \<Rightarrow> Inl e
                         | Inr bm1 \<Rightarrow> Inr (bm1, pos + (8 - n), lng - (8 - n)))
                      else Inr (bm, pos, lng)) of
                  Inl e \<Rightarrow> Inl e
                | Inr (bm1, pos1, lng1) \<Rightarrow>
                    (case fill_bytes 0 bm1 pos1 lng1 of
                       Inl e \<Rightarrow> Inl e
                     | Inr (bm2, pos2, lng2) \<Rightarrow>
                         if lng2 > 0 then
                           assign_and_not bm2 (drop_bit 3 pos2) (push_bit (to_uint (8 - lng2)) (0xff :: byte))
                         else Inr bm2))"

text \<open>\<open>AllocateBitmap\<close> returns the slice as \<open>WriteInUse\<close> left it, with the position and
  the flag of \<open>FindFreeSpot\<close>.\<close>

definition AllocateBitmap :: "byte list \<Rightarrow> int \<Rightarrow> panic + (byte list \<times> int \<times> bool)" where
  "AllocateBitmap bm lng =
     (case FindFreeSpot bm lng of
        Inl e \<Rightarrow> Inl e
      | Inr (pos, ok) \<Rightarrow>
          if ok then (case WriteInUse bm pos lng of Inl e \<Rightarrow> Inl e | Inr bm' \<Rightarrow> Inr (bm', pos, ok))
          else Inr (bm, pos, ok))"

definition FreeBitmap :: "byte list \<Rightarrow> int \<Rightarrow> int \<Rightarrow> panic + byte list" where
  "FreeBitmap bm pos lng =
     (let max = int (length bm * 8) - pos;
          lng = (if max < lng then max else lng)
      in if lng > 0 then WriteFree bm pos lng else Inr bm)"


declare findFreeSpot8_from.simps [simp del]
declare FindFreeSpot_from.simps [simp del]
declare fill_bytes.simps [simp del]

section \<open>Package filealloc\<close>

subsection \<open>Integers of the address calculator\<close>

text \<open>\<open>int64 x\<close> is the value an \<open>int64\<close> (and an \<open>int\<close> on a 64-bit platform) holds after
  an operation whose exact result is \<open>x\<close>. A left shift by 64 or more gives 0, which is what
  \<open>shl64\<close> computes. Go's \<open>/\<close> and \<open>%\<close> truncate towards zero and panic on a zero divisor.\<close>

definition int64 :: "int \<Rightarrow> int" where
  "int64 x = signed_take_bit 63 x"

definition shl64 :: "int \<Rightarrow> nat \<Rightarrow> int" where
  "shl64 x s = int64 (push_bit s x)"

definition go_div :: "int \<Rightarrow> int \<Rightarrow> int" where
  "go_div a b = sgn a * sgn b * (\<bar>a\<bar> div \<bar>b\<bar>)"

definition go_mod :: "int \<Rightarrow> int \<Rightarrow> int" where
  "go_mod a b = sgn a * (\<bar>a\<bar> mod \<bar>b\<bar>)"

text \<open>\<open>make([]byte, n)\<close>: a zeroed slice; the run-time panics on a negative length and on
  one beyond the largest allocation (\<open>2^48\<close> bytes on linux/amd64).\<close>

definition make_bytes :: "int \<Rightarrow> panic + byte list" where
  "make_bytes n = (if n < 0 \<or> n > 2 ^ 48 then Inl MakeSliceLen else Inr (replicate (nat n) 0))"

subsection \<open>Errors, the store and the memory mapper\<close>

text \<open>The three error values of the package, and any other error a store or a mapper
  returns.\<close>

datatype error = EXTHAUSTED | EXCEEDMAX | outOfBounds | IOError nat

text \<open>\<open>Storage\<close> and \<open>MemMapper\<close> are interfaces: the allocator works with any
  implementation. An implementation is a record of functions on the state \<open>'s\<close> of the
  world outside the allocator (the file, its mappings, whatever the implementation keeps);
  only the methods the allocator calls in the functions below are listed. \<open>ReadAt\<close> gets the
  slice to fill and returns it filled, with the count and the error.\<close>

record 's Storage =
  ReadAt :: "'s \<Rightarrow> byte list \<Rightarrow> int \<Rightarrow> (byte list \<times> int \<times> error option) \<times> 's"
  WriteAt :: "'s \<Rightarrow> byte list \<Rightarrow> int \<Rightarrow> (int \<times> error option) \<times> 's"
  Sync :: "'s \<Rightarrow> error option \<times> 's"

record 's MemMapper =
  MemmapAt :: "'s \<Rightarrow> int \<Rightarrow> int \<Rightarrow> (byte list \<times> error option) \<times> 's"
  FlushMap :: "'s \<Rightarrow> byte list \<Rightarrow> error option \<times> 's"

subsection \<open>FormatConfig and the address calculator\<close>

record FormatConfig =
  BlockSizeLog :: "8 word"
  BitmapBlocks :: "8 word"
  PrefixBlocks :: "8 word"
  DontUseMmap :: bool
  DontMsync :: bool
  DontFsync :: bool

definition RunSizeInBlocks :: "FormatConfig \<Rightarrow> int" where
  "RunSizeInBlocks f = shl64 (uint (BitmapBlocks f)) (unat (BlockSizeLog f + 3))"

definition ChunkSizeInBlocks :: "FormatConfig \<Rightarrow> int" where
  "ChunkSizeInBlocks f = int64 (RunSizeInBlocks f + uint (BitmapBlocks f))"

definition BreakAddress :: "FormatConfig \<Rightarrow> int \<Rightarrow> panic + (int \<times> int \<times> bool)" where
  "BreakAddress f blk =
     (let blk = int64 (blk - uint (PrefixBlocks f))
      in if blk < 0 then Inr (0, 0, False)
         else let chunksiz = ChunkSizeInBlocks f
              in if chunksiz = 0 then Inl DivideByZero
                 else let chunk = int64 (go_div blk chunksiz);
                          pos = int64 (go_mod blk chunksiz - uint (BitmapBlocks f))
                      in Inr (chunk, pos, pos \<ge> 0))"

definition MakeAddress :: "FormatConfig \<Rightarrow> int \<Rightarrow> int \<Rightarrow> int" where
  "MakeAddress f chunk pos =
     (let blk = uint (PrefixBlocks f);
          chunksiz = ChunkSizeInBlocks f;
          blk = int64 (blk + int64 (chunk * chunksiz));
          blk = int64 (blk + uint (BitmapBlocks f));
          blk = int64 (blk + pos)
      in blk)"

definition NewFormatConfig :: "8 word \<Rightarrow> FormatConfig" where
  "NewFormatConfig logBlockSize =
     \<lparr>BlockSizeLog = logBlockSize, BitmapBlocks = 1, PrefixBlocks = 1,
      DontUseMmap = False, DontMsync = False, DontFsync = False\<rparr>"

subsection \<open>The page allocator\<close>

record bitmapBuffer =
  buffer :: "byte list"
  rawoff :: int
  mmapped :: bool

text \<open>The field \<open>store\<close> is the state behind the \<open>Storage\<close> and the \<open>MemMapper\<close> value. The
  bytes of a mapped buffer are kept in \<open>buffer\<close> like those of a private one.\<close>

record 's PageAllocator =
  Storage :: "'s Storage"
  FormatConfig :: FormatConfig
  mmapper :: "'s MemMapper option"
  bitmapSize :: int
  allocators :: "bitmapBuffer list"
  store :: 's

definition ChunksN :: "'s PageAllocator \<Rightarrow> int" where
  "ChunksN pa = int (length (allocators pa))"

text \<open>\<open>MemmapAt\<close> as \<open>getAllocator\<close> and \<open>appendAllocator\<close> use it: with a mapper, a mapping
  without error and of at least \<open>bitmapSize\<close> bytes replaces the buffer and sets \<open>mmapped\<close>.\<close>

definition try_mmap :: "'s PageAllocator \<Rightarrow> bitmapBuffer \<Rightarrow> bitmapBuffer \<times> 's PageAllocator" where
  "try_mmap pa b =
     (case mmapper pa of
        None \<Rightarrow> (b, pa)
      | Some mm \<Rightarrow>
          (case MemmapAt mm (store pa) (bitmapSize pa) (rawoff b) of
             ((buf, err), s) \<Rightarrow>
               (if err = None \<and> int (length buf) \<ge> bitmapSize pa
                then b\<lparr>buffer := buf, mmapped := True\<rparr> else b,
                pa\<lparr>store := s\<rparr>)))"

definition getAllocator :: "'s PageAllocator \<Rightarrow> int \<Rightarrow> panic + (bitmapBuffer \<times> 's PageAllocator)" where
  "getAllocator pa off =
     (let b = \<lparr>buffer = [], rawoff = shl64 off (unat (BlockSizeLog (FormatConfig pa))), mmapped = False\<rparr>;
          (b, pa) = try_mmap pa b
      in if \<not> mmapped b then
           (case make_bytes (bitmapSize pa) of
              Inl e \<Rightarrow> Inl e
            | Inr buf \<Rightarrow>
                (case ReadAt (Storage pa) (store pa) buf (rawoff b) of
                   ((buf, n, err), s) \<Rightarrow> Inr (b\<lparr>buffer := buf\<rparr>, pa\<lparr>store := s\<rparr>)))
         else Inr (b, pa))"

definition appendAllocator :: "'s PageAllocator \<Rightarrow> panic + (error option \<times> 's PageAllocator)" where
  "appendAllocator pa =
     (let off = MakeAddress (FormatConfig pa) (int (length (allocators pa)))
                  (- uint (BitmapBlocks (FormatConfig pa)));
          b = \<lparr>buffer = [], rawoff = shl64 off (unat (BlockSizeLog (FormatConfig pa))), mmapped = False\<rparr>
      in case make_bytes (bitmapSize pa) of
           Inl e \<Rightarrow> Inl e
         | Inr buf \<Rightarrow>
             (let b = b\<lparr>buffer := buf\<rparr>
              in case WriteAt (Storage pa) (store pa) (buffer b) (rawoff b) of
                   ((n, err), s) \<Rightarrow>
                     (let pa = pa\<lparr>store := s\<rparr>
                      in if err \<noteq> None then Inr (err, pa)
                         else let (b, pa) = try_mmap pa b
                              in Inr (err, pa\<lparr>allocators := allocators pa @ [b]\<rparr>))))"

text \<open>\<open>Init\<close>: the loop that counts the bitmap regions the store holds. It ends when a
  read returns no byte, which a store may never do.\<close>

partial_function (option) Init_count ::
  "'s PageAllocator \<Rightarrow> byte list \<Rightarrow> int \<Rightarrow> int \<Rightarrow> int \<Rightarrow> (byte list \<times> int \<times> int \<times> 's PageAllocator) option" where
  "Init_count pa buf pos stride i =
     (case ReadAt (Storage pa) (store pa) buf (shl64 pos (unat (BlockSizeLog (FormatConfig pa)))) of
        ((buf, n, err), s) \<Rightarrow>
          if n \<le> 0 then Some (buf, pos, i, pa\<lparr>store := s\<rparr>)
          else Init_count (pa\<lparr>store := s\<rparr>) buf (int64 (pos + stride)) stride (int64 (i + 1)))"

declare Init_count.simps [code]

text \<open>\<open>Init\<close>: the loop that builds the \<open>k\<close> buffers, returned in chunk order.\<close>

fun Init_buffers ::
  "'s PageAllocator \<Rightarrow> int \<Rightarrow> int \<Rightarrow> nat \<Rightarrow> panic + (bitmapBuffer list \<times> 's PageAllocator)" where
  "Init_buffers pa pos stride 0 = Inr ([], pa)"
| "Init_buffers pa pos stride (Suc k) =
     (case getAllocator pa pos of
        Inl e \<Rightarrow> Inl e
      | Inr (b, pa) \<Rightarrow>
          (case Init_buffers pa (int64 (pos + stride)) stride k of
             Inl e \<Rightarrow> Inl e
           | Inr (bs, pa) \<Rightarrow> Inr (b # bs, pa)))"

text \<open>\<open>Init\<close>. The argument \<open>mm\<close> is what \<open>getMemMapper(pa.Storage)\<close> returns from the
  process-wide list of providers. \<open>None\<close> is the loop that never ends.\<close>

definition Init :: "'s PageAllocator \<Rightarrow> 's MemMapper option \<Rightarrow> (panic + 's PageAllocator) option" where
  "Init pa mm =
     (let f = FormatConfig pa;
          pa = pa\<lparr>bitmapSize := shl64 (uint (BitmapBlocks f)) (unat (BlockSizeLog f))\<rparr>;
          pa = pa\<lparr>mmapper := (if DontUseMmap f then None else mm)\<rparr>
      in case make_bytes (bitmapSize pa) of
           Inl e \<Rightarrow> Some (Inl e)
         | Inr buf \<Rightarrow>
             (let pos = uint (PrefixBlocks f);
                  stride = ChunkSizeInBlocks f
              in case Init_count pa buf pos stride 0 of
                   None \<Rightarrow> None
                 | Some (buf, pos, i, pa) \<Rightarrow>
                     (let (i, pa) =
                            (if i = 0 then
                               (case WriteAt (Storage pa) (store pa) (map (\<lambda>c. 0) buf)
                                       (shl64 pos (unat (BlockSizeLog f))) of
                                  ((n, err), s) \<Rightarrow> (int64 (i + 1), pa\<lparr>store := s\<rparr>))
                             else (i, pa))
                      in if i < 0 then Some (Inl MakeSliceLen)
                         else case Init_buffers pa (uint (PrefixBlocks f)) stride (nat i) of
                                Inl e \<Rightarrow> Some (Inl e)
                              | Inr (bs, pa) \<Rightarrow> Some (Inr (pa\<lparr>allocators := bs\<rparr>)))))"

definition MemSyncIfMmapped :: "'s PageAllocator \<Rightarrow> int \<Rightarrow> panic + ((error option \<times> bool) \<times> 's PageAllocator)" where
  "MemSyncIfMmapped pa chunk =
     (if int (length (allocators pa)) \<le> chunk then Inr ((Some outOfBounds, False), pa)
      else if chunk < 0 then Inl IndexOutOfRange
      else if \<not> mmapped (allocators pa ! nat chunk) then Inr ((None, False), pa)
      else case mmapper pa of
             None \<Rightarrow> Inl NilDereference
           | Some mm \<Rightarrow>
               (case FlushMap mm (store pa) (buffer (allocators pa ! nat chunk)) of
                  (err, s) \<Rightarrow> Inr ((err, True), pa\<lparr>store := s\<rparr>)))"

text \<open>The statements that follow the change of bitmap \<open>i\<close> in \<open>doAllocate\<close> and in \<open>doFree\<close>:
  a private buffer is written to the store and the store synced unless \<open>DontFsync\<close>; a
  mapped one is flushed unless \<open>DontMsync\<close>. The result is the value left in \<open>err\<close>.\<close>

definition persist :: "'s PageAllocator \<Rightarrow> nat \<Rightarrow> panic + (error option \<times> 's PageAllocator)" where
  "persist pa i =
     (let b = allocators pa ! i
      in if \<not> mmapped b then
           (case WriteAt (Storage pa) (store pa) (buffer b) (rawoff b) of
              ((n, err), s) \<Rightarrow>
                (let pa = pa\<lparr>store := s\<rparr>
                 in if \<not> DontFsync (FormatConfig pa)
                    then Inr (err, pa\<lparr>store := snd (Sync (Storage pa) (store pa))\<rparr>)
                    else Inr (err, pa)))
         else if \<not> DontMsync (FormatConfig pa) then
           (case mmapper pa of
              None \<Rightarrow> Inl NilDereference
            | Some mm \<Rightarrow>
                (case FlushMap mm (store pa) (buffer b) of
                   (err, s) \<Rightarrow> Inr (err, pa\<lparr>store := s\<rparr>)))
         else Inr (None, pa))"

text \<open>\<open>doAllocate\<close>: the loop over the chunks from index \<open>i\<close> on.\<close>

function doAllocate_from ::
  "'s PageAllocator \<Rightarrow> int \<Rightarrow> nat \<Rightarrow> panic + ((int \<times> bool \<times> error option) \<times> 's PageAllocator)" where
  "doAllocate_from pa lng i =
     (if i < length (allocators pa) then
        (case AllocateBitmap (buffer (allocators pa ! i)) lng of
           Inl e \<Rightarrow> Inl e
         | Inr (bm, blk, ok) \<Rightarrow>
             (let pa' = pa\<lparr>allocators := (allocators pa)[i := (allocators pa ! i)\<lparr>buffer := bm\<rparr>]\<rparr>
              in if \<not> ok then doAllocate_from pa' lng (i + 1)
                 else let blk = MakeAddress (FormatConfig pa') (int i) blk
                      in case persist pa' i of
                           Inl e \<Rightarrow> Inl e
                         | Inr (err, pa') \<Rightarrow> Inr ((blk, ok, err), pa')))
      else Inr ((0, False, Some EXTHAUSTED), pa))"
  by pat_completeness auto
termination
  by (relation "measure (\<lambda>(pa, lng, i). length (allocators pa) - i)") auto

declare doAllocate_from.simps [simp del]

definition doAllocate ::
  "'s PageAllocator \<Rightarrow> int \<Rightarrow> panic + ((int \<times> bool \<times> error option) \<times> 's PageAllocator)" where
  "doAllocate pa lng = doAllocate_from pa lng 0"

text \<open>\<open>AllocateBlocks\<close>: the loop \<open>for { ... }\<close>, which ends only by a \<open>return\<close>.\<close>

partial_function (option) AllocateBlocks_loop ::
  "'s PageAllocator \<Rightarrow> int \<Rightarrow> bool
     \<Rightarrow> (panic + ((int \<times> bool \<times> error option) \<times> 's PageAllocator)) option" where
  "AllocateBlocks_loop pa lng grow =
     (case doAllocate pa lng of
        Inl e \<Rightarrow> Some (Inl e)
      | Inr ((blk, ok, err), pa) \<Rightarrow>
          if ok \<or> err \<noteq> Some EXTHAUSTED \<or> \<not> grow then Some (Inr ((blk, ok, err), pa))
          else (case appendAllocator pa of
                  Inl e \<Rightarrow> Some (Inl e)
                | Inr (err, pa) \<Rightarrow>
                    if err \<noteq> None then Some (Inr ((blk, ok, err), pa))
                    else AllocateBlocks_loop pa lng grow))"

declare AllocateBlocks_loop.simps [code]

definition AllocateBlocks ::
  "'s PageAllocator \<Rightarrow> int \<Rightarrow> bool
     \<Rightarrow> (panic + ((int \<times> bool \<times> error option) \<times> 's PageAllocator)) option" where
  "AllocateBlocks pa lng grow =
     (if lng > RunSizeInBlocks (FormatConfig pa) then Some (Inr ((0, False, Some EXCEEDMAX), pa))
      else AllocateBlocks_loop pa lng grow)"

definition doFree :: "'s PageAllocator \<Rightarrow> int \<Rightarrow> int \<Rightarrow> panic + (error option \<times> 's PageAllocator)" where
  "doFree pa blk lng =
     (case BreakAddress (FormatConfig pa) blk of
        Inl e \<Rightarrow> Inl e
      | Inr (i, pos, ok) \<Rightarrow>
          if \<not> ok then Inr (None, pa)
          else if int (length (allocators pa)) > i then
            (if i < 0 then Inl IndexOutOfRange
             else case FreeBitmap (buffer (allocators pa ! nat i)) pos lng of
                    Inl e \<Rightarrow> Inl e
                  | Inr bm \<Rightarrow>
                      persist (pa\<lparr>allocators :=
                                  (allocators pa)[nat i := (allocators pa ! nat i)\<lparr>buffer := bm\<rparr>]\<rparr>)
                        (nat i))
          else Inr (None, pa))"

definition FreeBlocks :: "'s PageAllocator \<Rightarrow> int \<Rightarrow> int \<Rightarrow> panic + (error option \<times> 's PageAllocator)" where
  "FreeBlocks pa blk lng = doFree pa blk lng"


subsection \<open>Sequences of operations\<close>

text \<open>A client's calls on one allocator, one after the other, and what each returned. A panic
  ends the sequence, and so does a call that never returns.\<close>

datatype operation = Allocate int bool | Free int int

datatype outcome = Allocated int bool "error option" | Freed "error option"

fun run :: "'s PageAllocator \<Rightarrow> operation list \<Rightarrow> (panic + (outcome list \<times> 's PageAllocator)) option" where
  "run pa [] = Some (Inr ([], pa))"
| "run pa (Allocate lng grow # ops) =
     (case AllocateBlocks pa lng grow of
        None \<Rightarrow> None
      | Some (Inl e) \<Rightarrow> Some (Inl e)
      | Some (Inr ((blk, ok, err), pa)) \<Rightarrow>
          (case run pa ops of
             None \<Rightarrow> None
           | Some (Inl e) \<Rightarrow> Some (Inl e)
           | Some (Inr (rs, pa)) \<Rightarrow> Some (Inr (Allocated blk ok err # rs, pa))))"
| "run pa (Free blk lng # ops) =
     (case FreeBlocks pa blk lng of
        Inl e \<Rightarrow> Some (Inl e)
      | Inr (err, pa) \<Rightarrow>
          (case run pa ops of
             None \<Rightarrow> None
           | Some (Inl e) \<Rightarrow> Some (Inl e)
           | Some (Inr (rs, pa)) \<Rightarrow> Some (Inr (Freed err # rs, pa))))"

subsection \<open>A store in memory\<close>

text \<open>A regular file as \<open>*os.File\<close> presents it, its content being the state: a read copies
  the bytes the file has from the offset on and reports fewer than asked with an error, a
  write extends the file with zeros up to the offset, a sync changes nothing. No mapper.\<close>

definition file_ReadAt :: "byte list \<Rightarrow> byte list \<Rightarrow> int \<Rightarrow> (byte list \<times> int \<times> error option) \<times> byte list" where
  "file_ReadAt s buf off =
     (if off < 0 then ((buf, 0, Some (IOError 0)), s)
      else let d = take (length buf) (drop (nat off) s)
           in ((d @ drop (length d) buf, int (length d),
                if length d < length buf then Some (IOError 1) else None), s))"

definition file_WriteAt :: "byte list \<Rightarrow> byte list \<Rightarrow> int \<Rightarrow> (int \<times> error option) \<times> byte list" where
  "file_WriteAt s src off =
     (if off < 0 then ((0, Some (IOError 0)), s)
      else let s' = s @ replicate (nat off + length src - length s) 0
           in ((int (length src), None), take (nat off) s' @ src @ drop (nat off + length src) s'))"

definition file_Storage :: "byte list Storage" where
  "file_Storage = \<lparr>ReadAt = file_ReadAt, WriteAt = file_WriteAt, Sync = (\<lambda>s. (None, s))\<rparr>"

text \<open>The allocator a client constructs over a file with content \<open>s\<close>, before \<open>Init\<close>; and
  the sequence of calls that starts with \<open>Init\<close> on the empty file.\<close>

definition file_allocator :: "FormatConfig \<Rightarrow> byte list \<Rightarrow> byte list PageAllocator" where
  "file_allocator f s =
     \<lparr>Storage = file_Storage, FormatConfig = f, mmapper = None, bitmapSize = 0,
      allocators = [], store = s\<rparr>"

definition run_fresh ::
  "FormatConfig \<Rightarrow> operation list \<Rightarrow> (panic + (outcome list \<times> byte list PageAllocator)) option" where
  "run_fresh f ops =
     (case Init (file_allocator f []) None of
        None \<Rightarrow> None
      | Some (Inl e) \<Rightarrow> Some (Inl e)
      | Some (Inr pa) \<Rightarrow> run pa ops)"

text \<open>The parts of a result that can be compared: the outcomes, the number of chunks and
  the bitmaps.\<close>

definition observe ::
  "(panic + (outcome list \<times> 's PageAllocator)) option
     \<Rightarrow> (panic + (outcome list \<times> int \<times> byte list list)) option" where
  "observe r = map_option (map_sum id (\<lambda>(rs, pa). (rs, ChunksN pa, map buffer (allocators pa)))) r"

section \<open>Notions of the specification\<close>

text \<open>The run size \<open>R = M \<cdot> 2^B \<cdot> 8\<close> and the chunk size \<open>C = M + R\<close> of the
  specification, as numbers.\<close>

definition spec_R :: "FormatConfig \<Rightarrow> int" where
  "spec_R f = uint (BitmapBlocks f) * 2 ^ unat (BlockSizeLog f) * 8"

definition spec_C :: "FormatConfig \<Rightarrow> int" where
  "spec_C f = uint (BitmapBlocks f) + spec_R f"

text \<open>\<open>paints w bm bm' a b\<close>: \<open>bm'\<close> is \<open>bm\<close> with the slots from \<open>a\<close> up to, not including,
  \<open>b\<close> set to \<open>w\<close>, and nothing else changed.\<close>

definition paints :: "bool \<Rightarrow> byte list \<Rightarrow> byte list \<Rightarrow> int \<Rightarrow> int \<Rightarrow> bool" where
  "paints w bm bm' a b \<longleftrightarrow>
     length bm' = length bm \<and>
     (\<forall>s. 0 \<le> s \<and> s < 8 * int (length bm) \<longrightarrow> slot bm' s = (if a \<le> s \<and> s < b then w else slot bm s))"

text \<open>What \<open>Init\<close> and \<open>appendAllocator\<close> maintain and the operations rely on: a buffer is
  marked as mapped only when there is a mapper, and the chunk size is not negative.\<close>

definition initialised :: "'s PageAllocator \<Rightarrow> bool" where
  "initialised pa \<longleftrightarrow>
     0 \<le> ChunkSizeInBlocks (FormatConfig pa) \<and>
     (\<forall>b \<in> set (allocators pa). mmapped b \<longrightarrow> mmapper pa \<noteq> None)"


text \<open>\<open>same_setup pa pa'\<close>: the two allocators have the same configuration, mapper, bitmap
  size and store methods.\<close>

definition same_setup :: "'s PageAllocator \<Rightarrow> 's PageAllocator \<Rightarrow> bool" where
  "same_setup pa pa' \<longleftrightarrow>
     FormatConfig pa' = FormatConfig pa \<and> mmapper pa' = mmapper pa \<and>
     bitmapSize pa' = bitmapSize pa \<and> Storage pa' = Storage pa"

text \<open>The allocator over a file in memory after \<open>Init\<close> on the empty file and
  \<open>AllocateBlocks(64, true)\<close>, with 8-byte blocks: one chunk, all of it in use.\<close>

definition example_allocator :: "byte list PageAllocator" where
  "example_allocator =
     \<lparr>Storage = file_Storage, FormatConfig = NewFormatConfig 3, mmapper = None, bitmapSize = 8,
      allocators = [\<lparr>buffer = replicate 8 0xFF, rawoff = 8, mmapped = False\<rparr>],
      store = replicate 8 0 @ replicate 8 0xFF\<rparr>"

section \<open>Bits and small arithmetic\<close>

lemma bit_ff: "bit (0xff :: byte) k \<longleftrightarrow> k < 8"
proof -
  have "(0xff :: byte) = - 1" by simp
  then show ?thesis by (simp only: bit_minus_1_iff possible_bit_word) simp
qed

lemma bit_drop_ff: "bit (drop_bit n (0xff :: byte)) k \<longleftrightarrow> k + n < 8"
  using bit_ff [of "n + k"] by (simp add: bit_drop_bit_eq add.commute)

lemma bit_push_ff: "bit (push_bit m (0xff :: byte)) k \<longleftrightarrow> m \<le> k \<and> k < 8"
  using bit_ff [of "k - m"] by (auto simp add: bit_push_bit_iff possible_bit_word)

lemma bit_drop_push_ff:
  "bit (drop_bit n (push_bit m (0xff :: byte))) k \<longleftrightarrow> m \<le> k + n \<and> k + n < 8"
  using bit_push_ff [of m "n + k"] by (simp add: bit_drop_bit_eq add.commute)

lemma and_7: "(x :: int) AND 7 = x mod 8"
  using take_bit_eq_mask [of 3 x] by (simp add: take_bit_eq_mod mask_numeral)

lemma drop_3: "drop_bit 3 (x :: int) = x div 8"
  by (simp add: drop_bit_eq_div)

lemma to_uint_nat: "0 \<le> x \<Longrightarrow> x < 2 ^ 64 \<Longrightarrow> to_uint x = nat x"
  by (simp add: to_uint_def take_bit_int_eq_self)

lemma to_uint_small: "0 \<le> x \<Longrightarrow> x \<le> 8 \<Longrightarrow> to_uint x = nat x"
  by (rule to_uint_nat) simp_all

lemma split8: "s div 8 = j \<Longrightarrow> s = 8 * j + s mod 8" for s :: int
  using mult_div_mod_eq [of 8 s] by simp

lemma div8_eq: "8 * i \<le> s \<Longrightarrow> s < 8 * i + 8 \<Longrightarrow> s div 8 = (i::int)"
  by linarith

lemma int64_range: "- (2 ^ 63) \<le> int64 x" "int64 x < 2 ^ 63"
  using signed_take_bit_int_greater_eq_minus_exp [of 63 x] signed_take_bit_int_less_exp [of 63 x]
  by (simp_all add: int64_def)

lemma int64_id: "- (2 ^ 63) \<le> x \<Longrightarrow> x < 2 ^ 63 \<Longrightarrow> int64 x = x"
  by (simp add: int64_def signed_take_bit_int_eq_self)

lemma int64_nonneg_id: "0 \<le> x \<Longrightarrow> x < 2 ^ 63 \<Longrightarrow> int64 x = x"
  by (rule int64_id) simp_all

lemma go_div_pos: "0 \<le> a \<Longrightarrow> 0 < b \<Longrightarrow> go_div a b = a div b"
  by (cases "a = 0") (simp_all add: go_div_def)

lemma go_mod_pos: "0 \<le> a \<Longrightarrow> 0 < b \<Longrightarrow> go_mod a b = a mod b"
  by (cases "a = 0") (simp_all add: go_mod_def)

section \<open>Slots under the writes of the bitmap package\<close>

lemma slot_update:
  "0 \<le> s \<Longrightarrow> j < length bm \<Longrightarrow>
   slot (bm[j := v]) s = (if s div 8 = int j then bit v (nat (7 - s mod 8)) else slot bm s)"
  by (auto simp add: slot_def nth_list_update)

text \<open>Slots determine the bytes.\<close>

lemma slots_eq:
  assumes l: "length a = length b"
    and s: "\<And>s. 0 \<le> s \<Longrightarrow> s < 8 * int (length a) \<Longrightarrow> slot a s = slot b s"
  shows "a = b"
proof (rule nth_equalityI [OF l])
  fix i assume i: "i < length a"
  show "a ! i = b ! i"
  proof (rule bit_word_eqI)
    fix k assume "k < LENGTH(8)"
    then have k: "k < 8" by simp
    define t where "t = 8 * int i + (7 - int k)"
    have "t div 8 = int i" "t mod 8 = 7 - int k"
      using k unfolding t_def by (simp_all add: div_pos_pos_trivial mod_pos_pos_trivial)
    then have "slot a t = bit (a ! i) k" "slot b t = bit (b ! i) k"
      by (simp_all add: slot_def)
    moreover have "slot a t = slot b t"
      using i k by (intro s) (simp_all add: t_def)
    ultimately show "bit (a ! i) k = bit (b ! i) k" by simp
  qed
qed

lemma paints_refl: "b \<le> a \<Longrightarrow> paints w bm bm a b"
  by (auto simp add: paints_def)

lemma paints_trans:
  assumes "paints w bm bm1 a b" "paints w bm1 bm2 b c" "a \<le> b" "b \<le> c"
  shows "paints w bm bm2 a c"
proof -
  have l: "length bm1 = length bm" "length bm2 = length bm"
    using assms(1,2) by (simp_all add: paints_def)
  have "slot bm2 s = (if a \<le> s \<and> s < c then w else slot bm s)"
    if s: "0 \<le> s" "s < 8 * int (length bm)" for s
  proof -
    have 1: "slot bm1 s = (if a \<le> s \<and> s < b then w else slot bm s)"
      using assms(1) s by (simp add: paints_def)
    have 2: "slot bm2 s = (if b \<le> s \<and> s < c then w else slot bm1 s)"
      using assms(2) s l by (simp add: paints_def)
    show ?thesis using 1 2 assms(3,4) by auto
  qed
  with l show ?thesis by (simp add: paints_def)
qed

text \<open>One byte replaced: the slots of that byte inside \<open>[a, c)\<close> take the value \<open>w\<close>.\<close>

lemma paints_byte:
  assumes i: "0 \<le> i" "i < int (length bm)"
    and m: "\<And>s. s div 8 = i \<Longrightarrow>
              bit v (nat (7 - s mod 8)) = (if a \<le> s \<and> s < c then w else bit (bm ! nat i) (nat (7 - s mod 8)))"
    and r: "a < c \<Longrightarrow> 8 * i \<le> a \<and> c \<le> 8 * i + 8"
  shows "paints w bm (bm[nat i := v]) a c"
proof -
  have "slot (bm[nat i := v]) s = (if a \<le> s \<and> s < c then w else slot bm s)"
    if s: "0 \<le> s" "s < 8 * int (length bm)" for s
  proof (cases "s div 8 = i")
    case True
    have j: "nat i < length bm" "s div 8 = int (nat i)" using i True by simp_all
    have "slot (bm[nat i := v]) s = bit v (nat (7 - s mod 8))"
      using slot_update [OF s(1) j(1), of v] j(2) by simp
    moreover have "slot bm s = bit (bm ! nat i) (nat (7 - s mod 8))"
      by (simp add: slot_def True)
    ultimately show ?thesis using m [OF True] by simp
  next
    case False
    have j: "nat i < length bm" "s div 8 \<noteq> int (nat i)" using i False by simp_all
    have n: "\<not> (a \<le> s \<and> s < c)"
    proof
      assume h: "a \<le> s \<and> s < c"
      with r have "8 * i \<le> s" "s < 8 * i + 8" by linarith+
      then have "s div 8 = i" by (rule div8_eq)
      with False show False ..
    qed
    have "slot (bm[nat i := v]) s = slot bm s"
      using slot_update [OF s(1) j(1), of v] j(2) by simp
    with n show ?thesis by auto
  qed
  then show ?thesis by (simp add: paints_def)
qed

lemma assign_or_paints:
  assumes i: "0 \<le> i" "i < int (length bm)"
    and m: "\<And>s. s div 8 = i \<Longrightarrow> bit b (nat (7 - s mod 8)) \<longleftrightarrow> a \<le> s \<and> s < c"
    and r: "a < c \<Longrightarrow> 8 * i \<le> a \<and> c \<le> 8 * i + 8"
  shows "\<exists>bm'. assign_or bm i b = Inr bm' \<and> paints True bm bm' a c"
proof -
  have "paints True bm (bm[nat i := bm ! nat i OR b]) a c"
    by (rule paints_byte [OF i _ r]) (auto simp add: bit_or_iff m)
  with i show ?thesis by (simp add: assign_or_def)
qed

lemma assign_and_not_paints:
  assumes i: "0 \<le> i" "i < int (length bm)"
    and m: "\<And>s. s div 8 = i \<Longrightarrow> bit b (nat (7 - s mod 8)) \<longleftrightarrow> a \<le> s \<and> s < c"
    and r: "a < c \<Longrightarrow> 8 * i \<le> a \<and> c \<le> 8 * i + 8"
  shows "\<exists>bm'. assign_and_not bm i b = Inr bm' \<and> paints False bm bm' a c"
proof -
  have "paints False bm (bm[nat i := bm ! nat i AND NOT b]) a c"
    by (rule paints_byte [OF i _ r]) (auto simp add: bit_and_iff bit_not_iff m)
  with i show ?thesis by (simp add: assign_and_not_def)
qed

text \<open>The loop over whole bytes, started at a byte boundary inside the slice.\<close>

lemma fill_bytes_slots:
  assumes "0 \<le> pos" "pos mod 8 = 0" "0 \<le> lng" "pos + lng \<le> 8 * int (length bm)"
  shows "\<exists>bm'. fill_bytes v bm pos lng = Inr (bm', pos + 8 * (lng div 8), lng mod 8)
           \<and> length bm' = length bm
           \<and> (\<forall>s. 0 \<le> s \<longrightarrow> s < 8 * int (length bm) \<longrightarrow>
                 slot bm' s = (if pos \<le> s \<and> s < pos + 8 * (lng div 8)
                               then bit v (nat (7 - s mod 8)) else slot bm s))"
  using assms
proof (induction v bm pos lng rule: fill_bytes.induct)
  case (1 v bm pos lng)
  show ?case
  proof (cases "lng \<ge> 8")
    case False
    with "1.prems" have "lng div 8 = 0" "lng mod 8 = lng" by auto
    with False show ?thesis by (subst fill_bytes.simps) auto
  next
    case True
    define j where "j = nat (pos div 8)"
    have j0: "0 \<le> pos div 8" "pos div 8 < int (length bm)"
      using "1.prems"(1,4) True by linarith+
    have j: "j < length bm" "pos div 8 = int j"
      using j0 unfolding j_def by linarith+
    have a: "assign bm (drop_bit 3 pos) v = Inr (bm[j := v])"
      using j0 by (simp add: assign_def drop_3 j_def)
    have "\<exists>bm'. fill_bytes v (bm[j := v]) (pos + 8) (lng - 8)
             = Inr (bm', pos + 8 + 8 * ((lng - 8) div 8), (lng - 8) mod 8)
           \<and> length bm' = length (bm[j := v])
           \<and> (\<forall>s. 0 \<le> s \<longrightarrow> s < 8 * int (length (bm[j := v])) \<longrightarrow>
                 slot bm' s = (if pos + 8 \<le> s \<and> s < pos + 8 + 8 * ((lng - 8) div 8)
                               then bit v (nat (7 - s mod 8)) else slot (bm[j := v]) s))"
      using "1.prems" True by (intro "1.IH" [OF True a]) auto
    then obtain bm' where r: "fill_bytes v (bm[j := v]) (pos + 8) (lng - 8)
             = Inr (bm', pos + 8 + 8 * ((lng - 8) div 8), (lng - 8) mod 8)"
        and l: "length bm' = length bm"
        and s: "\<And>s. 0 \<le> s \<Longrightarrow> s < 8 * int (length bm) \<Longrightarrow>
                 slot bm' s = (if pos + 8 \<le> s \<and> s < pos + 8 + 8 * ((lng - 8) div 8)
                               then bit v (nat (7 - s mod 8)) else slot (bm[j := v]) s)"
      by auto
    have d: "(lng - 8) div 8 = lng div 8 - 1" "(lng - 8) mod 8 = lng mod 8"
      using div_add_self2 [of 8 "lng - 8"] mod_add_self2 [of "lng - 8" 8] by simp_all
    have d1: "1 \<le> lng div 8" using True by linarith
    have e: "fill_bytes v bm pos lng = Inr (bm', pos + 8 * (lng div 8), lng mod 8)"
      using True a r d by (subst fill_bytes.simps) simp
    have "slot bm' s = (if pos \<le> s \<and> s < pos + 8 * (lng div 8)
                               then bit v (nat (7 - s mod 8)) else slot bm s)"
      if "0 \<le> s" "s < 8 * int (length bm)" for s
    proof -
      have "pos = 8 * int j"
        using j(2) "1.prems"(2) mult_div_mod_eq [of 8 pos] by simp
      then have k: "s div 8 = int j \<longleftrightarrow> pos \<le> s \<and> s < pos + 8"
        by linarith
      show ?thesis
        using s [OF that] slot_update [OF that(1) j(1), of v] k d d1 by auto
    qed
    with e l show ?thesis by blast
  qed
qed

lemma fill_bytes_paints:
  assumes "0 \<le> pos" "pos mod 8 = 0" "0 \<le> lng" "pos + lng \<le> 8 * int (length bm)"
    and v: "\<And>k. k < 8 \<Longrightarrow> bit v k = w"
  shows "\<exists>bm'. fill_bytes v bm pos lng = Inr (bm', pos + 8 * (lng div 8), lng mod 8)
           \<and> paints w bm bm' pos (pos + 8 * (lng div 8))"
proof -
  from fill_bytes_slots [OF assms(1-4), of v] obtain bm' where
    r: "fill_bytes v bm pos lng = Inr (bm', pos + 8 * (lng div 8), lng mod 8)"
    and l: "length bm' = length bm"
    and s: "\<And>s. 0 \<le> s \<Longrightarrow> s < 8 * int (length bm) \<Longrightarrow>
                 slot bm' s = (if pos \<le> s \<and> s < pos + 8 * (lng div 8)
                               then bit v (nat (7 - s mod 8)) else slot bm s)"
    by blast
  have "bit v (nat (7 - s mod 8)) = w" for s :: int
    by (rule v) simp
  with r l s show ?thesis by (simp add: paints_def)
qed


text \<open>The common shape of \<open>WriteInUse\<close> and \<open>WriteFree\<close>: a first partial byte, whole bytes,
  a last partial byte, or one partial byte when the run ends inside the byte it starts in.
  \<open>upd\<close> is the masked assignment and \<open>v\<close> the value of a whole byte.\<close>

lemma write_run_paints:
  fixes upd :: "byte list \<Rightarrow> int \<Rightarrow> byte \<Rightarrow> panic + byte list"
  assumes upd: "\<And>bm i b a c. 0 \<le> i \<Longrightarrow> i < int (length bm) \<Longrightarrow>
                  (\<And>s. s div 8 = i \<Longrightarrow> bit b (nat (7 - s mod 8)) \<longleftrightarrow> a \<le> s \<and> s < c) \<Longrightarrow>
                  (a < c \<Longrightarrow> 8 * i \<le> a \<and> c \<le> 8 * i + 8) \<Longrightarrow>
                  \<exists>bm'. upd bm i b = Inr bm' \<and> paints w bm bm' a c"
    and v: "\<And>k. k < 8 \<Longrightarrow> bit v k = w"
    and p: "0 \<le> p" "0 \<le> l" "p + l \<le> 8 * int (length bm)" "p < 8 * int (length bm)"
  shows "\<exists>bm'.
     (let n = p AND 7
      in if drop_bit 3 (l + n) = 0 then
           upd bm (drop_bit 3 p)
             (drop_bit (to_uint n) (push_bit (to_uint (8 - l)) (0xff :: byte)))
         else
           case (if n \<noteq> 0 then
                   (case upd bm (drop_bit 3 p) (drop_bit (to_uint n) (0xff :: byte)) of
                      Inl e \<Rightarrow> Inl e
                    | Inr bm1 \<Rightarrow> Inr (bm1, p + (8 - n), l - (8 - n)))
                 else Inr (bm, p, l)) of
             Inl e \<Rightarrow> Inl e
           | Inr (bm1, pos1, lng1) \<Rightarrow>
               (case fill_bytes v bm1 pos1 lng1 of
                  Inl e \<Rightarrow> Inl e
                | Inr (bm2, pos2, lng2) \<Rightarrow>
                    if lng2 > 0 then
                      upd bm2 (drop_bit 3 pos2) (push_bit (to_uint (8 - lng2)) (0xff :: byte))
                    else Inr bm2)) = Inr bm' \<and> paints w bm bm' p (p + l)"
proof -
  define n where "n = p mod 8"
  define j where "j = p div 8"
  have n: "0 \<le> n" "n < 8" by (simp_all add: n_def)
  have pj: "p = 8 * j + n" unfolding n_def by (rule split8) (simp add: j_def)
  have j: "0 \<le> j" "j < int (length bm)" using p pj n by linarith+
  have b: "p AND 7 = n" "drop_bit 3 p = j" "to_uint n = nat n"
    using n by (simp_all add: and_7 drop_3 n_def j_def to_uint_small)
  show ?thesis
  proof (cases "(l + n) div 8 = 0")
    case True
    then have ln: "l + n < 8" using p(2) n(1) by linarith
    have ul: "to_uint (8 - l) = nat (8 - l)" using ln p(2) n(1) by (simp add: to_uint_small)
    have m: "bit (drop_bit (nat n) (push_bit (nat (8 - l)) (0xff :: byte))) (nat (7 - s mod 8))
              \<longleftrightarrow> p \<le> s \<and> s < p + l" if "s div 8 = j" for s
    proof -
      have "s = 8 * j + s mod 8" using that by (rule split8)
      moreover have "0 \<le> s mod 8" "s mod 8 < 8" by simp_all
      ultimately show ?thesis using pj n ln p(2) unfolding bit_drop_push_ff by linarith
    qed
    have r: "8 * j \<le> p \<and> p + l \<le> 8 * j + 8" using pj n ln by linarith
    have c: "(drop_bit 3 (l + n) = 0) = True" using True by (simp add: drop_3)
    from upd [OF j m r] obtain bm' where
      "upd bm j (drop_bit (nat n) (push_bit (nat (8 - l)) (0xff :: byte))) = Inr bm'"
      "paints w bm bm' p (p + l)" by blast
    then show ?thesis
      unfolding Let_def b ul c if_True by blast
  next
    case False
    then have ln: "8 \<le> l + n" using p(2) n(1) by linarith
    define ph1 where "ph1 =
            (if n \<noteq> 0 then
               (case upd bm j (drop_bit (nat n) (0xff :: byte)) of
                  Inl e \<Rightarrow> Inl e
                | Inr bm1 \<Rightarrow> Inr (bm1, p + (8 - n), l - (8 - n)))
             else Inr (bm, p, l))"
    have "\<exists>bm1 pos1 lng1. ph1 = Inr (bm1, pos1, lng1)
            \<and> paints w bm bm1 p pos1 \<and> pos1 mod 8 = 0 \<and> p \<le> pos1 \<and> 0 \<le> lng1 \<and> pos1 + lng1 = p + l"
    proof (cases "n = 0")
      case True
      with pj p(2) show ?thesis by (simp add: ph1_def paints_refl)
    next
      case False
      have m: "bit (drop_bit (nat n) (0xff :: byte)) (nat (7 - s mod 8))
              \<longleftrightarrow> p \<le> s \<and> s < 8 * j + 8" if "s div 8 = j" for s
      proof -
        have "s = 8 * j + s mod 8" using that by (rule split8)
        moreover have "0 \<le> s mod 8" "s mod 8 < 8" by simp_all
        ultimately show ?thesis using pj n unfolding bit_drop_ff by linarith
      qed
      have r: "8 * j \<le> p \<and> 8 * j + 8 \<le> 8 * j + 8" using pj n by linarith
      from upd [OF j m r] obtain bm1 where
        "upd bm j (drop_bit (nat n) (0xff :: byte)) = Inr bm1"
        "paints w bm bm1 p (8 * j + 8)" by blast
      moreover have "p + (8 - n) = 8 * j + 8" using pj by simp
      moreover have "(8 * j + 8) mod 8 = 0" by simp
      ultimately show ?thesis using False ln n pj by (simp add: ph1_def)
    qed
    then obtain bm1 pos1 lng1 where
      e1: "ph1 = Inr (bm1, pos1, lng1)"
      and p1: "paints w bm bm1 p pos1"
      and a1: "pos1 mod 8 = 0" "p \<le> pos1" "0 \<le> lng1" "pos1 + lng1 = p + l"
      by (elim exE conjE)
    have l1: "length bm1 = length bm" using p1 by (simp add: paints_def)
    define pos2 where "pos2 = pos1 + 8 * (lng1 div 8)"
    define lng2 where "lng2 = lng1 mod 8"
    have "\<exists>bm'. fill_bytes v bm1 pos1 lng1 = Inr (bm', pos1 + 8 * (lng1 div 8), lng1 mod 8)
           \<and> paints w bm1 bm' pos1 (pos1 + 8 * (lng1 div 8))"
      using a1 p l1 by (intro fill_bytes_paints v) simp_all
    then obtain bm2 where
      e2: "fill_bytes v bm1 pos1 lng1 = Inr (bm2, pos2, lng2)"
      and p2: "paints w bm1 bm2 pos1 pos2"
      unfolding pos2_def lng2_def by (elim exE conjE)
    have l2: "length bm2 = length bm" using p2 l1 by (simp add: paints_def)
    have a2: "pos1 \<le> pos2" "0 \<le> lng2" "lng2 < 8" "pos2 + lng2 = p + l" "pos2 mod 8 = 0"
      using a1 by (simp_all add: pos2_def lng2_def pos_imp_zdiv_nonneg_iff)
    have p12: "paints w bm bm2 p pos2"
      using p1 p2 a1(2) a2(1) by (rule paints_trans)
    define ph3 where "ph3 =
                (if lng2 > 0 then
                   upd bm2 (drop_bit 3 pos2) (push_bit (to_uint (8 - lng2)) (0xff :: byte))
                 else Inr bm2)"
    have "\<exists>bm'. ph3 = Inr bm' \<and> paints w bm bm' p (p + l)"
    proof (cases "lng2 > 0")
      case False
      with a2 have "pos2 = p + l" by simp
      with p12 False show ?thesis by (simp add: ph3_def)
    next
      case True
      define i where "i = pos2 div 8"
      have pi: "pos2 = 8 * i" using a2(5) by (simp add: i_def mod_eq_0_iff_dvd)
      have i: "0 \<le> i" "i < int (length bm2)"
        using pi a2 a1 p True l2 by linarith+
      have ul: "to_uint (8 - lng2) = nat (8 - lng2)" using a2 True by (simp add: to_uint_small)
      have m: "bit (push_bit (nat (8 - lng2)) (0xff :: byte)) (nat (7 - s mod 8))
              \<longleftrightarrow> pos2 \<le> s \<and> s < p + l" if "s div 8 = i" for s
      proof -
        have "s = 8 * i + s mod 8" using that by (rule split8)
        moreover have "0 \<le> s mod 8" "s mod 8 < 8" by simp_all
        ultimately show ?thesis using pi a2 True unfolding bit_push_ff by linarith
      qed
      have r: "8 * i \<le> pos2 \<and> p + l \<le> 8 * i + 8" using pi a2 by linarith
      from upd [OF i m r] obtain bm3 where
        e3: "upd bm2 i (push_bit (nat (8 - lng2)) (0xff :: byte)) = Inr bm3"
        and p3: "paints w bm2 bm3 pos2 (p + l)" by blast
      have "paints w bm bm3 p (p + l)"
        using p12 p3 by (rule paints_trans) (use a1 a2 in linarith)+
      with e3 True show ?thesis by (simp add: ph3_def drop_3 ul flip: i_def)
    qed
    then obtain bm' where
      e3: "ph3 = Inr bm'"
      and p3: "paints w bm bm' p (p + l)" by (elim exE conjE)
    have c: "(drop_bit 3 (l + n) = 0) = False" using False by (simp add: drop_3)
    show ?thesis
      unfolding Let_def b c if_False
      unfolding ph1_def [symmetric] e1 sum.case prod.case e2
      unfolding ph3_def [symmetric]
      using e3 p3 by blast
  qed
qed

lemma WriteInUse_paints:
  assumes "0 \<le> p" "0 \<le> l" "p + l \<le> 8 * int (length bm)" "p < 8 * int (length bm)"
  shows "\<exists>bm'. WriteInUse bm p l = Inr bm' \<and> paints True bm bm' p (p + l)"
proof -
  have c: "(p < 0 \<or> l < 0) = False" using assms(1,2) by simp
  have v: "bit (0xff :: byte) k = True" if "k < 8" for k using that bit_ff [of k] by blast
  show ?thesis
    unfolding WriteInUse_def c if_False
    by (rule write_run_paints [where upd = assign_or, OF assign_or_paints v assms]) 
qed

lemma WriteFree_paints:
  assumes "0 \<le> p" "0 \<le> l" "p + l \<le> 8 * int (length bm)" "p < 8 * int (length bm)"
  shows "\<exists>bm'. WriteFree bm p l = Inr bm' \<and> paints False bm bm' p (p + l)"
proof -
  have c: "(p < 0 \<or> l < 0) = False" using assms(1,2) by simp
  have v: "bit (0 :: byte) k = False" if "k < 8" for k by simp
  show ?thesis
    unfolding WriteFree_def c if_False
    by (rule write_run_paints [where upd = assign_and_not, OF assign_and_not_paints v assms])
qed

section \<open>Claims about the bitmap package\<close>

text \<open>
  C7 (mark and clear locality). For every slice \<open>bm\<close> and every \<open>p \<ge> 0\<close>, \<open>l \<ge> 0\<close> with
  \<open>p + l \<le> 8 * |bm|\<close> and \<open>p < 8 * |bm|\<close>, \<open>WriteInUse bm p l\<close> returns a slice of the same
  length in which exactly the slots of \<open>[p, p + l)\<close> are set and every other slot is as in
  \<open>bm\<close>; \<open>WriteFree bm p l\<close> returns one in which exactly those slots are cleared and every
  other slot is as in \<open>bm\<close>.
\<close>

theorem WriteInUse_WriteFree_locality:
  assumes "0 \<le> p" "0 \<le> l" "p + l \<le> 8 * int (length bm)" "p < 8 * int (length bm)"
  shows "(\<exists>bm'. WriteInUse bm p l = Inr bm' \<and> length bm' = length bm \<and>
            (\<forall>s. 0 \<le> s \<and> s < 8 * int (length bm) \<longrightarrow>
                 slot bm' s = (if p \<le> s \<and> s < p + l then True else slot bm s)))
       \<and> (\<exists>bm'. WriteFree bm p l = Inr bm' \<and> length bm' = length bm \<and>
            (\<forall>s. 0 \<le> s \<and> s < 8 * int (length bm) \<longrightarrow>
                 slot bm' s = (if p \<le> s \<and> s < p + l then False else slot bm s)))"
  using WriteInUse_paints [OF assms] WriteFree_paints [OF assms]
  unfolding paints_def by blast

theorem WriteInUse_WriteFree_locality_witness:
  "(0::int) \<le> 2 \<and> (0::int) \<le> 9 \<and> (2::int) + 9 \<le> 8 * int (length [0x0F, 0xF0 :: byte])
   \<and> (2::int) < 8 * int (length [0x0F, 0xF0 :: byte])
   \<and> (\<exists>bm'. WriteInUse [0x0F, 0xF0] 2 9 = Inr bm' \<and> length bm' = length [0x0F, 0xF0 :: byte] \<and>
            (\<forall>s. 0 \<le> s \<and> s < 8 * int (length [0x0F, 0xF0 :: byte]) \<longrightarrow>
                 slot bm' s = (if 2 \<le> s \<and> s < 2 + 9 then True else slot [0x0F, 0xF0] s)))
   \<and> (\<exists>bm'. WriteFree [0x0F, 0xF0] 2 9 = Inr bm' \<and> length bm' = length [0x0F, 0xF0 :: byte] \<and>
            (\<forall>s. 0 \<le> s \<and> s < 8 * int (length [0x0F, 0xF0 :: byte]) \<longrightarrow>
                 slot bm' s = (if 2 \<le> s \<and> s < 2 + 9 then False else slot [0x0F, 0xF0] s)))"
proof -
  have h: "(0::int) \<le> 2" "(0::int) \<le> 9" "(2::int) + 9 \<le> 8 * int (length [0x0F, 0xF0 :: byte])"
    "(2::int) < 8 * int (length [0x0F, 0xF0 :: byte])"
    by simp_all
  from WriteInUse_WriteFree_locality [OF h] h show ?thesis by blast
qed

text \<open>
  C3 (round trip), as the code has it. For every slice \<open>bm\<close> and every \<open>p \<ge> 0\<close>, \<open>l \<ge> 0\<close>
  with \<open>p + l \<le> 8 * |bm|\<close> and \<open>p < 8 * |bm|\<close> such that every slot of \<open>[p, p + l)\<close> is free
  in \<open>bm\<close>, \<open>WriteInUse bm p l\<close> followed by \<open>WriteFree\<close> on the same range returns exactly
  the bytes of \<open>bm\<close>.
\<close>

theorem WriteInUse_WriteFree_roundtrip:
  assumes "0 \<le> p" "0 \<le> l" "p + l \<le> 8 * int (length bm)" "p < 8 * int (length bm)"
    and free: "\<forall>s. p \<le> s \<and> s < p + l \<longrightarrow> \<not> slot bm s"
  shows "\<exists>bm1. WriteInUse bm p l = Inr bm1 \<and> WriteFree bm1 p l = Inr bm"
proof -
  from WriteInUse_paints [OF assms(1-4)] obtain bm1 where
    1: "WriteInUse bm p l = Inr bm1" and p1: "paints True bm bm1 p (p + l)" by blast
  have l1: "length bm1 = length bm" using p1 by (simp add: paints_def)
  from WriteFree_paints [of p l bm1] assms(1-4) l1 obtain bm2 where
    2: "WriteFree bm1 p l = Inr bm2" and p2: "paints False bm1 bm2 p (p + l)" by auto
  have l2: "length bm2 = length bm" using p2 l1 by (simp add: paints_def)
  have "bm2 = bm"
  proof (rule slots_eq [OF l2])
    fix s assume s: "0 \<le> s" "s < 8 * int (length bm2)"
    have "slot bm1 s = (if p \<le> s \<and> s < p + l then True else slot bm s)"
      using p1 s l2 by (simp add: paints_def)
    moreover have "slot bm2 s = (if p \<le> s \<and> s < p + l then False else slot bm1 s)"
      using p2 s l1 l2 by (simp add: paints_def)
    ultimately show "slot bm2 s = slot bm s" using free by auto
  qed
  with 1 2 show ?thesis by simp
qed

theorem WriteInUse_WriteFree_roundtrip_witness:
  "(0::int) \<le> 4 \<and> (0::int) \<le> 6 \<and> (4::int) + 6 \<le> 8 * int (length [0xF0, 0x3F :: byte])
   \<and> (4::int) < 8 * int (length [0xF0, 0x3F :: byte])
   \<and> \<not> (\<exists>s. 4 \<le> s \<and> s < 4 + 6 \<and> slot [0xF0, 0x3F] s)
   \<and> (\<exists>bm1. WriteInUse [0xF0, 0x3F] 4 6 = Inr bm1 \<and> WriteFree bm1 4 6 = Inr [0xF0, 0x3F])"
proof -
  have h: "(0::int) \<le> 4" "(0::int) \<le> 6" "(4::int) + 6 \<le> 8 * int (length [0xF0, 0x3F :: byte])"
    "(4::int) < 8 * int (length [0xF0, 0x3F :: byte])"
    by simp_all
  have f: "\<forall>s. 4 \<le> s \<and> s < 4 + 6 \<longrightarrow> \<not> slot [0xF0, 0x3F] s"
  proof (intro allI impI)
    fix s :: int assume "4 \<le> s \<and> s < 4 + 6"
    then have "s = 4 \<or> s = 5 \<or> s = 6 \<or> s = 7 \<or> s = 8 \<or> s = 9" by linarith
    then show "\<not> slot [0xF0, 0x3F] s" by (elim disjE) (simp_all add: slot_def)
  qed
  from WriteInUse_WriteFree_roundtrip [OF h f] h f show ?thesis by blast
qed

text \<open>The round trip without the side conditions: a slot that was occupied before is free
  afterwards, and a run of no slot at the very end of the slice makes \<open>WriteInUse\<close> panic.\<close>

theorem WriteInUse_WriteFree_roundtrip_counterexample:
  "WriteInUse [0xFF] 0 8 = Inr [0xFF] \<and> WriteFree [0xFF] 0 8 = Inr [0x00]
   \<and> WriteInUse [] 0 0 = Inl IndexOutOfRange"
  by code_simp


text \<open>
  C1 (find locates the lowest free run). The code does not have the property: for
  \<open>lng \<le> 8\<close>, when the free bits at the end of byte \<open>j\<close> are fewer than \<open>lng\<close>,
  \<open>findFreeSpot8\<close> tests byte \<open>j + 1\<close> with the mask \<open>B << (8 - i)\<close>, the top \<open>lng + i - 8\<close>
  bits, where the run needs the top \<open>lng - i\<close> bits (the path for \<open>lng > 8\<close> passes
  \<open>lng - i\<close> to \<open>matchAligned\<close>). On eight bytes \<open>0xAA\<close> and \<open>lng = 2\<close> it reports a run at
  slot 7; slot 8 is occupied, and so is one slot of every two neighbours. On the bytes
  \<open>0x80, 0x40, 0, 0\<close> and \<open>lng = 8\<close> it reports slot 10 and passes over the free run that
  starts at slot 1.
\<close>

theorem FindFreeSpot_fragmented:
  "FindFreeSpot (replicate 8 0xAA) 2 = Inr (7, True)
   \<and> slot (replicate 8 0xAA) 8
   \<and> list_all (\<lambda>p. slot (replicate 8 0xAA) p \<or> slot (replicate 8 0xAA) (p + 1)) [0..62]
   \<and> FindFreeSpot [0x80, 0x40, 0, 0] 8 = Inr (10, True)
   \<and> list_all (\<lambda>s. \<not> slot [0x80, 0x40, 0, 0] s) [1..8]"
  by code_simp

section \<open>Claims about the address calculator\<close>

lemma spec_R_shift:
  assumes "0 < spec_R f" "spec_R f < 2 ^ 63"
  shows "RunSizeInBlocks f = spec_R f"
proof -
  define M where "M = uint (BitmapBlocks f)"
  define b where "b = unat (BlockSizeLog f)"
  have R: "spec_R f = M * 2 ^ (b + 3)" by (simp add: spec_R_def M_def b_def power_add)
  have M: "1 \<le> M"
  proof (rule ccontr)
    assume "\<not> 1 \<le> M"
    moreover have "0 \<le> M" by (simp add: M_def)
    ultimately have "M = 0" by linarith
    with assms(1) R show False by simp
  qed
  have "(2::int) ^ (b + 3) \<le> M * 2 ^ (b + 3)" using M by (simp add: mult_le_cancel_right1)
  with assms(2) R have "(2::int) ^ (b + 3) < 2 ^ 63" by linarith
  then have b: "b + 3 < 63" by (intro power_less_imp_less_exp [of 2]) simp_all
  have "unat (BlockSizeLog f + 3) = (b + 3) mod 256"
    by (simp add: b_def unat_word_ariths)
  with b have s: "unat (BlockSizeLog f + 3) = b + 3" by simp
  have "RunSizeInBlocks f = int64 (M * 2 ^ (b + 3))"
    by (simp add: RunSizeInBlocks_def shl64_def s M_def push_bit_eq_mult)
  also have "\<dots> = M * 2 ^ (b + 3)"
    using assms R by (intro int64_nonneg_id) simp_all
  finally show ?thesis using R by simp
qed

lemma spec_C_chunk:
  assumes "0 < spec_R f" "spec_C f < 2 ^ 63"
  shows "ChunkSizeInBlocks f = spec_C f"
proof -
  have M: "0 \<le> uint (BitmapBlocks f)" by simp
  then have "spec_R f < 2 ^ 63" using assms(2) unfolding spec_C_def by linarith
  with assms(1) have "RunSizeInBlocks f = spec_R f" by (rule spec_R_shift)
  moreover have "0 \<le> spec_C f" using assms(1) M unfolding spec_C_def by linarith
  ultimately show ?thesis
    using assms(2) by (simp add: ChunkSizeInBlocks_def spec_C_def add.commute int64_nonneg_id)
qed

text \<open>
  C8 (deterministic address math). For every configuration with \<open>R = M \<cdot> 2^B \<cdot> 8 > 0\<close>,
  every chunk index \<open>c \<ge> 0\<close> and every \<open>p\<close> with \<open>0 \<le> p < R\<close>, when the chunk size
  \<open>C = M + R\<close> and the address \<open>P + c \<cdot> C + M + p\<close> are below \<open>2^63\<close> (no \<open>int64\<close> operation
  overflows), \<open>BreakAddress (MakeAddress c p)\<close> returns exactly \<open>(c, p, true)\<close>.
\<close>

theorem BreakAddress_MakeAddress:
  assumes R: "0 < spec_R f" and C: "spec_C f < 2 ^ 63"
    and c: "0 \<le> c" and p: "0 \<le> p" "p < spec_R f"
    and fits: "uint (PrefixBlocks f) + c * spec_C f + uint (BitmapBlocks f) + p < 2 ^ 63"
  shows "BreakAddress f (MakeAddress f c p) = Inr (c, p, True)"
proof -
  define P where "P = uint (PrefixBlocks f)"
  define M where "M = uint (BitmapBlocks f)"
  define Cs where "Cs = spec_C f"
  have P: "0 \<le> P" and M: "0 \<le> M" by (simp_all add: P_def M_def)
  have Cs: "ChunkSizeInBlocks f = Cs" unfolding Cs_def using R C by (rule spec_C_chunk)
  have Cpos: "0 < Cs" using R M unfolding Cs_def spec_C_def M_def by linarith
  have MR: "M + p < Cs" using p unfolding Cs_def spec_C_def M_def by linarith
  have cC: "0 \<le> c * Cs" using c Cpos by simp
  have fits': "P + c * Cs + M + p < 2 ^ 63" using fits by (simp add: P_def M_def Cs_def)
  have 1: "int64 (c * Cs) = c * Cs" using cC fits' P M p by (intro int64_nonneg_id) linarith+
  have 2: "int64 (P + c * Cs) = P + c * Cs" using cC fits' P M p by (intro int64_nonneg_id) linarith+
  have 3: "int64 (P + c * Cs + M) = P + c * Cs + M" using cC fits' P M p by (intro int64_nonneg_id) linarith+
  have 4: "int64 (P + c * Cs + M + p) = P + c * Cs + M + p" using cC fits' P M p by (intro int64_nonneg_id) linarith+
  have mk: "MakeAddress f c p = P + c * Cs + M + p"
    by (simp add: MakeAddress_def Let_def Cs 1 2 3 4 flip: P_def M_def)
  define x where "x = c * Cs + (M + p)"
  have x0: "0 \<le> x" using cC M p by (simp add: x_def)
  have 5: "int64 x = x" using x0 fits' P unfolding x_def by (intro int64_nonneg_id) linarith+
  have d: "x div Cs = c" using Cpos M p MR by (simp add: x_def div_pos_pos_trivial)
  have m: "x mod Cs = M + p" using Cpos M p MR by (simp add: x_def mod_pos_pos_trivial)
  have 6: "int64 c = c" using c cC Cpos fits' P M p
  proof -
    have "c \<le> c * Cs" using c Cpos by (simp add: mult_le_cancel_left1)
    then show ?thesis using c fits' P M p by (intro int64_nonneg_id) linarith+
  qed
  have 7: "int64 p = p" using p cC fits' P M by (intro int64_nonneg_id) linarith+
  have bx: "P + c * Cs + M + p - P = x" by (simp add: x_def)
  show ?thesis
    unfolding BreakAddress_def mk Let_def
    using x0 Cpos p(1)
    by (simp add: bx 5 Cs go_div_pos go_mod_pos d m 6 7 flip: P_def M_def)
qed

theorem BreakAddress_MakeAddress_witness:
  "0 < spec_R (NewFormatConfig 3) \<and> spec_C (NewFormatConfig 3) < 2 ^ 63
   \<and> (0::int) \<le> 5 \<and> (0::int) \<le> 63 \<and> 63 < spec_R (NewFormatConfig 3)
   \<and> uint (PrefixBlocks (NewFormatConfig 3)) + 5 * spec_C (NewFormatConfig 3)
        + uint (BitmapBlocks (NewFormatConfig 3)) + 63 < 2 ^ 63
   \<and> BreakAddress (NewFormatConfig 3) (MakeAddress (NewFormatConfig 3) 5 63) = Inr (5, 63, True)"
proof -
  have h: "0 < spec_R (NewFormatConfig 3)" "spec_C (NewFormatConfig 3) < 2 ^ 63"
    "(0::int) \<le> 5" "(0::int) \<le> 63" "63 < spec_R (NewFormatConfig 3)"
    "uint (PrefixBlocks (NewFormatConfig 3)) + 5 * spec_C (NewFormatConfig 3)
        + uint (BitmapBlocks (NewFormatConfig 3)) + 63 < 2 ^ 63"
    by (simp_all add: spec_R_def spec_C_def NewFormatConfig_def)
  from BreakAddress_MakeAddress [OF h] h show ?thesis by blast
qed

section \<open>Initialised allocators\<close>

text \<open>\<open>Init\<close> leaves an initialised allocator, whatever the store and the mapper, and
  \<open>AllocateBlocks\<close> and \<open>FreeBlocks\<close> keep it initialised.\<close>

lemma same_setup_refl [simp]: "same_setup pa pa"
  by (simp add: same_setup_def)

lemma same_setup_store [simp]: "same_setup pa (pa'\<lparr>store := s\<rparr>) = same_setup pa pa'"
  by (simp add: same_setup_def)

lemma same_setup_allocators [simp]: "same_setup pa (pa'\<lparr>allocators := bs\<rparr>) = same_setup pa pa'"
  by (simp add: same_setup_def)

lemma same_setup_trans: "same_setup a b \<Longrightarrow> same_setup b c \<Longrightarrow> same_setup a c"
  by (simp add: same_setup_def)

lemma initialised_store [simp]: "initialised (pa\<lparr>store := s\<rparr>) = initialised pa"
  by (simp add: initialised_def)

lemma initialised_same:
  "initialised pa \<Longrightarrow> same_setup pa pa' \<Longrightarrow> allocators pa' = allocators pa \<Longrightarrow> initialised pa'"
  by (simp add: initialised_def same_setup_def)

lemma initialised_buffer:
  assumes "initialised pa"
  shows "initialised (pa\<lparr>allocators := (allocators pa)[k := (allocators pa ! k)\<lparr>buffer := bm\<rparr>]\<rparr>)"
proof (cases "k < length (allocators pa)")
  case False
  with assms show ?thesis by (simp add: initialised_def list_update_beyond not_less)
next
  case True
  have "mmapper pa \<noteq> None" if "b \<in> set ((allocators pa)[k := (allocators pa ! k)\<lparr>buffer := bm\<rparr>])" "mmapped b" for b
  proof -
    from that(1) have "b = (allocators pa ! k)\<lparr>buffer := bm\<rparr> \<or> b \<in> set (allocators pa)"
      using set_update_subset_insert [of "allocators pa" k] by auto
    then show ?thesis
    proof
      assume "b = (allocators pa ! k)\<lparr>buffer := bm\<rparr>"
      with that(2) have "mmapped (allocators pa ! k)" by simp
      moreover have "allocators pa ! k \<in> set (allocators pa)" using True by simp
      ultimately show ?thesis using assms by (auto simp add: initialised_def)
    next
      assume "b \<in> set (allocators pa)"
      with that(2) assms show ?thesis by (auto simp add: initialised_def)
    qed
  qed
  with assms show ?thesis by (auto simp add: initialised_def)
qed

lemma try_mmap_frame:
  assumes "try_mmap pa b = (b', pa')"
  shows "same_setup pa pa'" "allocators pa' = allocators pa"
    "mmapped b' \<Longrightarrow> mmapped b \<or> mmapper pa \<noteq> None"
  using assms
  by (auto simp add: try_mmap_def same_setup_def split: option.splits prod.splits if_splits)

lemma getAllocator_frame:
  assumes "getAllocator pa off = Inr (b, pa')"
  shows "same_setup pa pa'" "allocators pa' = allocators pa" "mmapped b \<Longrightarrow> mmapper pa \<noteq> None"
proof -
  define b0 where "b0 = \<lparr>buffer = [], rawoff = shl64 off (unat (BlockSizeLog (FormatConfig pa))), mmapped = False\<rparr>"
  obtain b1 pa1 where t: "try_mmap pa b0 = (b1, pa1)" by (cases "try_mmap pa b0")
  note f = try_mmap_frame [OF t]
  have r: "(if \<not> mmapped b1 then
           (case make_bytes (bitmapSize pa1) of
              Inl e \<Rightarrow> Inl e
            | Inr buf \<Rightarrow>
                (case ReadAt (Storage pa1) (store pa1) buf (rawoff b1) of
                   ((buf, n, err), s) \<Rightarrow> Inr (b1\<lparr>buffer := buf\<rparr>, pa1\<lparr>store := s\<rparr>)))
         else Inr (b1, pa1)) = Inr (b, pa')"
    using assms t by (simp add: getAllocator_def Let_def b0_def)
  have m0: "\<not> mmapped b0" by (simp add: b0_def)
  show "same_setup pa pa'" using r f(1)
    by (auto split: if_splits sum.splits prod.splits)
  show "allocators pa' = allocators pa" using r f(2)
    by (auto split: if_splits sum.splits prod.splits)
  show "mmapper pa \<noteq> None" if "mmapped b"
    using r f(3) m0 that by (auto split: if_splits sum.splits prod.splits)
qed

lemma Init_buffers_frame:
  "Init_buffers pa pos stride k = Inr (bs, pa') \<Longrightarrow>
     same_setup pa pa' \<and> allocators pa' = allocators pa \<and> (\<forall>b \<in> set bs. mmapped b \<longrightarrow> mmapper pa \<noteq> None)"
proof (induction k arbitrary: pa pos bs pa')
  case 0
  then show ?case by simp
next
  case (Suc k)
  from Suc.prems obtain b pa1 bs1 where
    g: "getAllocator pa pos = Inr (b, pa1)"
    and i: "Init_buffers pa1 (int64 (pos + stride)) stride k = Inr (bs1, pa')"
    and bs: "bs = b # bs1"
    by (auto split: sum.splits prod.splits)
  note f = getAllocator_frame [OF g]
  from Suc.IH [OF i] have
    h: "same_setup pa1 pa'" "allocators pa' = allocators pa1" "\<forall>b \<in> set bs1. mmapped b \<longrightarrow> mmapper pa1 \<noteq> None"
    by simp_all
  have "mmapper pa1 = mmapper pa" using f(1) by (simp add: same_setup_def)
  with f h bs show ?case by (auto intro: same_setup_trans)
qed

lemma Init_count_frame:
  assumes "Init_count pa buf pos stride i = Some r"
  shows "same_setup pa (snd (snd (snd r))) \<and> allocators (snd (snd (snd r))) = allocators pa"
proof (rule Init_count.raw_induct
    [where P = "\<lambda>pa buf pos stride i r.
       same_setup pa (snd (snd (snd r))) \<and> allocators (snd (snd (snd r))) = allocators pa",
     OF _ assms], goal_cases)
  case (1 f pa buf pos stride i r)
  obtain buf1 n err s where
    rd: "ReadAt (Storage pa) (store pa) buf (shl64 pos (unat (BlockSizeLog (FormatConfig pa)))) = ((buf1, n, err), s)"
    by (metis prod.exhaust)
  show ?case
  proof (cases "n \<le> 0")
    case True
    with 1(2) rd show ?thesis by auto
  next
    case False
    with 1(2) rd have "f (pa\<lparr>store := s\<rparr>) buf1 (int64 (pos + stride)) stride (int64 (i + 1)) = Some r"
      by simp
    from 1(1) [OF this] show ?thesis by (simp add: same_setup_def)
  qed
qed

lemma int64_times_8:
  assumes "0 \<le> int64 x" "int64 x \<le> 2 ^ 48"
  shows "int64 (8 * x) = 8 * int64 x"
proof -
  have "int64 (8 * x) = signed_take_bit 63 (signed_take_bit 63 8 * signed_take_bit 63 x)"
    unfolding int64_def by (simp only: signed_take_bit_mult)
  also have "signed_take_bit 63 (8::int) = 8" by (simp add: signed_take_bit_int_eq_self)
  also have "signed_take_bit 63 (8 * signed_take_bit 63 x) = int64 (8 * int64 x)"
    by (simp add: int64_def)
  also have "\<dots> = 8 * int64 x"
    using assms by (intro int64_nonneg_id) simp_all
  finally show ?thesis .
qed

lemma chunk_size_nonneg:
  assumes "0 \<le> shl64 (uint (BitmapBlocks f)) (unat (BlockSizeLog f))"
    and "shl64 (uint (BitmapBlocks f)) (unat (BlockSizeLog f)) \<le> 2 ^ 48"
  shows "0 \<le> ChunkSizeInBlocks f"
proof -
  define M where "M = uint (BitmapBlocks f)"
  define b where "b = unat (BlockSizeLog f)"
  have M: "0 \<le> M" "M < 256" using uint_bounded [of "BitmapBlocks f"] by (simp_all add: M_def)
  have b: "b < 256" using unsigned_less [of "BlockSizeLog f", where ?'a = nat] by (simp add: b_def)
  have s: "unat (BlockSizeLog f + 3) = (b + 3) mod 256"
    by (simp add: b_def unat_word_ariths)
  have R: "0 \<le> RunSizeInBlocks f \<and> RunSizeInBlocks f \<le> 2 ^ 51"
  proof (cases "b + 3 < 256")
    case True
    then have "RunSizeInBlocks f = int64 (8 * (M * 2 ^ b))"
      by (simp add: RunSizeInBlocks_def shl64_def s M_def push_bit_eq_mult power_add mult.commute mult.left_commute)
    also have "\<dots> = 8 * int64 (M * 2 ^ b)"
      using assms by (intro int64_times_8) (simp_all add: shl64_def push_bit_eq_mult M_def b_def)
    finally show ?thesis
      using assms by (simp add: shl64_def push_bit_eq_mult M_def b_def)
  next
    case False
    with b have "(b + 3) mod 256 = b + 3 - 256" "b + 3 - 256 \<le> 2"
      by (simp_all add: mod_if)
    then obtain t where t: "unat (BlockSizeLog f + 3) = t" "t \<le> 2" using s by simp
    have "(2::int) ^ t \<le> 2 ^ 2" using t(2) by (intro power_increasing) simp_all
    then have "M * 2 ^ t \<le> 256 * 4" "0 \<le> M * 2 ^ t"
      using M mult_mono [of M 256 "2 ^ t" 4] by simp_all
    then have "int64 (M * 2 ^ t) = M * 2 ^ t" "M * 2 ^ t \<le> 2 ^ 51" "0 \<le> M * 2 ^ t"
      by (simp_all add: int64_nonneg_id)
    then show ?thesis
      by (simp add: RunSizeInBlocks_def shl64_def t(1) push_bit_eq_mult flip: M_def)
  qed
  then have "0 \<le> RunSizeInBlocks f + M" "RunSizeInBlocks f + M < 2 ^ 63"
    using M by simp_all
  then have "int64 (RunSizeInBlocks f + M) = RunSizeInBlocks f + M"
    by (rule int64_nonneg_id)
  with R M show ?thesis by (simp add: ChunkSizeInBlocks_def flip: M_def)
qed

lemma make_bytes_Inr: "make_bytes n = Inr buf \<Longrightarrow> 0 \<le> n \<and> n \<le> 2 ^ 48"
  by (auto simp add: make_bytes_def split: if_splits)

lemma Init_initialised:
  assumes "Init pa mm = Some (Inr pa')"
  shows "initialised pa'"
proof -
  define f where "f = FormatConfig pa"
  define pa0 where "pa0 = pa\<lparr>bitmapSize := shl64 (uint (BitmapBlocks f)) (unat (BlockSizeLog f)),
                             mmapper := (if DontUseMmap f then None else mm)\<rparr>"
  have f0: "FormatConfig pa0 = f" by (simp add: pa0_def f_def)
  from assms obtain buf where mb: "make_bytes (bitmapSize pa0) = Inr buf"
    by (auto simp add: Init_def Let_def pa0_def f_def split: sum.splits)
  from make_bytes_Inr [OF mb] have "0 \<le> ChunkSizeInBlocks f"
    by (intro chunk_size_nonneg) (simp_all add: pa0_def)
  from assms mb obtain buf1 pos i pa1 where
    ic: "Init_count pa0 buf (uint (PrefixBlocks f)) (ChunkSizeInBlocks f) 0 = Some (buf1, pos, i, pa1)"
    by (auto simp add: Init_def Let_def pa0_def f_def split: sum.splits option.splits)
  from Init_count_frame [OF ic] have s1: "same_setup pa0 pa1" by simp
  define ipa where "ipa =
     (if i = 0 then
        (case WriteAt (Storage pa1) (store pa1) (map (\<lambda>c. 0) buf1)
                (shl64 pos (unat (BlockSizeLog f))) of
           ((n, err), s) \<Rightarrow> (int64 (i + 1), pa1\<lparr>store := s\<rparr>))
      else (i, pa1))"
  have s2: "same_setup pa1 (snd ipa)"
    by (auto simp add: ipa_def split: prod.splits)
  from assms mb ic obtain bs pa3 where
    ib: "Init_buffers (snd ipa) (uint (PrefixBlocks f)) (ChunkSizeInBlocks f) (nat (fst ipa)) = Inr (bs, pa3)"
    and r: "pa' = pa3\<lparr>allocators := bs\<rparr>"
    by (auto simp add: Init_def Let_def ipa_def pa0_def f_def split: sum.splits prod.splits if_splits)
  from Init_buffers_frame [OF ib] have
    s3: "same_setup (snd ipa) pa3" and m: "\<forall>b \<in> set bs. mmapped b \<longrightarrow> mmapper (snd ipa) \<noteq> None"
    by simp_all
  have "same_setup pa0 pa3" using s1 s2 s3 by (blast intro: same_setup_trans)
  then have "FormatConfig pa' = f" "mmapper pa' = mmapper pa0"
    using r f0 by (simp_all add: same_setup_def)
  moreover have "mmapper (snd ipa) = mmapper pa0"
    using s1 s2 by (simp add: same_setup_def)
  ultimately show ?thesis
    using m r \<open>0 \<le> ChunkSizeInBlocks f\<close> by (simp add: initialised_def)
qed

lemma persist_frame:
  assumes "persist pa i = Inr (err, pa')"
  shows "same_setup pa pa'" "allocators pa' = allocators pa"
  using assms
  by (auto simp add: persist_def Let_def same_setup_def split: if_splits prod.splits option.splits)

lemma persist_initialised:
  "initialised pa \<Longrightarrow> persist pa i = Inr (err, pa') \<Longrightarrow> initialised pa'"
  using persist_frame [of pa i err pa'] by (blast intro: initialised_same)

lemma doAllocate_from_initialised:
  "initialised pa \<Longrightarrow> doAllocate_from pa lng i = Inr (r, pa') \<Longrightarrow> initialised pa'"
proof (induction pa lng i rule: doAllocate_from.induct)
  case (1 pa lng i)
  show ?case
  proof (cases "i < length (allocators pa)")
    case False
    with "1.prems" show ?thesis by (subst (asm) doAllocate_from.simps) simp
  next
    case True
    from "1.prems"(2) True obtain bm blk ok where
      a: "AllocateBitmap (buffer (allocators pa ! i)) lng = Inr (bm, blk, ok)"
      by (subst (asm) doAllocate_from.simps) (auto split: sum.splits)
    define pa1 where "pa1 = pa\<lparr>allocators := (allocators pa)[i := (allocators pa ! i)\<lparr>buffer := bm\<rparr>]\<rparr>"
    have i1: "initialised pa1" unfolding pa1_def using "1.prems"(1) by (rule initialised_buffer)
    show ?thesis
    proof (cases ok)
      case False
      with "1.prems"(2) True a have "doAllocate_from pa1 lng (i + 1) = Inr (r, pa')"
        by (subst (asm) doAllocate_from.simps) (simp add: pa1_def)
      with False show ?thesis
        by (intro "1.IH" [OF True a refl refl pa1_def _ i1]) simp_all
    next
      case ok: True
      with "1.prems"(2) True a obtain err where "persist pa1 i = Inr (err, pa')"
        by (subst (asm) doAllocate_from.simps) (auto simp add: pa1_def Let_def split: sum.splits)
      with i1 show ?thesis by (rule persist_initialised)
    qed
  qed
qed

lemma appendAllocator_initialised:
  assumes "initialised pa" "appendAllocator pa = Inr (err, pa')"
  shows "initialised pa'"
proof -
  define b0 where "b0 = \<lparr>buffer = [],
      rawoff = shl64 (MakeAddress (FormatConfig pa) (int (length (allocators pa)))
                        (- uint (BitmapBlocks (FormatConfig pa))))
                 (unat (BlockSizeLog (FormatConfig pa))),
      mmapped = False\<rparr>"
  from assms(2) obtain buf where mb: "make_bytes (bitmapSize pa) = Inr buf"
    by (auto simp add: appendAllocator_def Let_def split: sum.splits)
  obtain n e s where w: "WriteAt (Storage pa) (store pa) buf (rawoff b0) = ((n, e), s)"
    by (metis prod.exhaust)
  show ?thesis
  proof (cases "e = None")
    case False
    with assms(2) mb w have "pa' = pa\<lparr>store := s\<rparr>"
      by (simp add: appendAllocator_def Let_def b0_def)
    with assms(1) show ?thesis by simp
  next
    case True
    obtain b1 pa1 where t: "try_mmap (pa\<lparr>store := s\<rparr>) (b0\<lparr>buffer := buf\<rparr>) = (b1, pa1)"
      by (metis prod.exhaust)
    note f = try_mmap_frame [OF t]
    from assms(2) mb w True t have r: "pa' = pa1\<lparr>allocators := allocators pa1 @ [b1]\<rparr>"
      by (simp add: appendAllocator_def Let_def b0_def)
    have "mmapped b1 \<longrightarrow> mmapper pa \<noteq> None" using f(3) by (auto simp add: b0_def)
    moreover have "FormatConfig pa1 = FormatConfig pa" "mmapper pa1 = mmapper pa" "allocators pa1 = allocators pa"
      using f(1,2) by (simp_all add: same_setup_def)
    ultimately show ?thesis using assms(1) r by (auto simp add: initialised_def)
  qed
qed

lemma AllocateBlocks_loop_initialised:
  assumes "AllocateBlocks_loop pa lng grow = Some (Inr (r, pa'))" "initialised pa"
  shows "initialised pa'"
proof -
  have "\<forall>r pa'. y = Inr (r, pa') \<longrightarrow> initialised pa \<longrightarrow> initialised pa'"
    if "AllocateBlocks_loop pa lng grow = Some y" for y
  proof (rule AllocateBlocks_loop.raw_induct
      [where P = "\<lambda>pa lng grow y. \<forall>r pa'. y = Inr (r, pa') \<longrightarrow> initialised pa \<longrightarrow> initialised pa'",
       OF _ that], goal_cases)
    case (1 f pa lng grow y)
    show ?case
    proof (intro allI impI)
      fix r pa' assume y: "y = Inr (r, pa')" and i: "initialised pa"
      from 1(2) y obtain blk ok err pa1 where
        d: "doAllocate pa lng = Inr ((blk, ok, err), pa1)"
        by (auto split: sum.splits)
      have i1: "initialised pa1"
        using i d unfolding doAllocate_def by (rule doAllocate_from_initialised)
      show "initialised pa'"
      proof (cases "ok \<or> err \<noteq> Some EXTHAUSTED \<or> \<not> grow")
        case True
        with 1(2) d y have "pa' = pa1" by auto
        with i1 show ?thesis by simp
      next
        case False
        with 1(2) d y obtain err2 pa2 where
          a: "appendAllocator pa1 = Inr (err2, pa2)"
          by (auto split: sum.splits)
        have i2: "initialised pa2" using i1 a by (rule appendAllocator_initialised)
        show ?thesis
        proof (cases "err2 = None")
          case e: False
          with 1(2) d y False a have "pa' = pa2" by auto
          with i2 show ?thesis by simp
        next
          case e: True
          with 1(2) d y False a have "f pa2 lng grow = Some y" by auto
          from 1(1) [OF this] y i2 show ?thesis by blast
        qed
      qed
    qed
  qed
  with assms show ?thesis by blast
qed

lemma AllocateBlocks_initialised:
  assumes "AllocateBlocks pa lng grow = Some (Inr (r, pa'))" "initialised pa"
  shows "initialised pa'"
  using assms AllocateBlocks_loop_initialised [of pa lng grow r pa']
  by (auto simp add: AllocateBlocks_def split: if_splits)

lemma FreeBlocks_initialised:
  assumes "FreeBlocks pa blk lng = Inr (err, pa')" "initialised pa"
  shows "initialised pa'"
proof -
  obtain i pos ok where b: "BreakAddress (FormatConfig pa) blk = Inr (i, pos, ok)"
    using assms(1) by (auto simp add: FreeBlocks_def doFree_def split: sum.splits)
  show ?thesis
  proof (cases "ok \<and> i < int (length (allocators pa))")
    case False
    with assms b show ?thesis by (auto simp add: FreeBlocks_def doFree_def split: if_splits)
  next
    case True
    with assms(1) b obtain bm where
      p: "persist (pa\<lparr>allocators := (allocators pa)[nat i := (allocators pa ! nat i)\<lparr>buffer := bm\<rparr>]\<rparr>) (nat i)
            = Inr (err, pa')"
      by (auto simp add: FreeBlocks_def doFree_def split: sum.splits if_splits)
    from initialised_buffer [OF assms(2)] p show ?thesis by (rule persist_initialised)
  qed
qed

lemma run_initialised:
  "run pa ops = Some (Inr (rs, pa')) \<Longrightarrow> initialised pa \<Longrightarrow> initialised pa'"
proof (induction pa ops arbitrary: rs rule: run.induct)
  case (1 pa)
  then show ?case by simp
next
  case (2 pa lng grow ops)
  from "2.prems"(1) obtain blk ok err pa1 rs1 where
    a: "AllocateBlocks pa lng grow = Some (Inr ((blk, ok, err), pa1))"
    and r: "run pa1 ops = Some (Inr (rs1, pa'))"
    by (auto split: option.splits sum.splits prod.splits)
  from a "2.prems"(2) have "initialised pa1" by (rule AllocateBlocks_initialised)
  with "2.IH" [OF a refl refl refl refl r] show ?case by simp
next
  case (3 pa blk lng ops)
  from "3.prems"(1) obtain err pa1 rs1 where
    a: "FreeBlocks pa blk lng = Inr (err, pa1)"
    and r: "run pa1 ops = Some (Inr (rs1, pa'))"
    by (auto split: option.splits sum.splits prod.splits)
  from a "3.prems"(2) have "initialised pa1" by (rule FreeBlocks_initialised)
  with "3.IH" [OF a refl r] show ?case by simp
qed

lemma run_fresh_initialised:
  "run_fresh f ops = Some (Inr (rs, pa)) \<Longrightarrow> initialised pa"
  by (auto simp add: run_fresh_def split: option.splits sum.splits
        intro: run_initialised Init_initialised)

lemma example_allocator_reached:
  "map_option (map_sum id (\<lambda>(rs, pa). (rs, FormatConfig pa, bitmapSize pa, allocators pa, store pa)))
      (run_fresh (NewFormatConfig 3) [Allocate 64 True])
   = Some (Inr ([Allocated 2 True None], FormatConfig example_allocator, bitmapSize example_allocator,
                allocators example_allocator, store example_allocator))"
  by code_simp

section \<open>Claims about the page allocator\<close>

text \<open>
  C5 (\<open>EXCEEDMAX\<close>). For every allocator, every \<open>grow\<close> and every \<open>lng\<close> greater than
  \<open>RunSizeInBlocks\<close>, \<open>AllocateBlocks\<close> returns at once \<open>ok = false\<close> with the error
  \<open>EXCEEDMAX\<close>; the allocator it leaves is the one it got, bitmaps and state of the store
  included, whatever the \<open>Storage\<close> and the \<open>MemMapper\<close> are, so no method of either was
  called.
\<close>

theorem AllocateBlocks_EXCEEDMAX:
  "lng > RunSizeInBlocks (FormatConfig pa) \<Longrightarrow>
   AllocateBlocks pa lng grow = Some (Inr ((0, False, Some EXCEEDMAX), pa))"
  by (simp add: AllocateBlocks_def)

theorem AllocateBlocks_EXCEEDMAX_witness:
  "65 > RunSizeInBlocks (FormatConfig example_allocator)
   \<and> AllocateBlocks example_allocator 65 True
       = Some (Inr ((0, False, Some EXCEEDMAX), example_allocator))"
proof -
  have h: "65 > RunSizeInBlocks (FormatConfig example_allocator)"
    by code_simp
  from AllocateBlocks_EXCEEDMAX [OF h] h show ?thesis by blast
qed

text \<open>
  C9 (free of an unknown address). For every \<open>blk\<close> for which \<open>BreakAddress\<close> returns
  \<open>ok = false\<close>, or a chunk index \<open>i \<ge> ChunksN\<close>, \<open>FreeBlocks blk lng\<close> returns nil for every
  \<open>lng\<close> and leaves the allocator as it was: no bitmap and nothing of the store changed.
\<close>

theorem FreeBlocks_unknown:
  "BreakAddress (FormatConfig pa) blk = Inr (i, pos, ok) \<Longrightarrow> \<not> ok \<or> ChunksN pa \<le> i \<Longrightarrow>
   FreeBlocks pa blk lng = Inr (None, pa)"
  by (auto simp add: FreeBlocks_def doFree_def ChunksN_def)

theorem FreeBlocks_unknown_witness:
  "BreakAddress (FormatConfig example_allocator) 67 = Inr (1, 0, True)
   \<and> ChunksN example_allocator \<le> 1
   \<and> FreeBlocks example_allocator 67 64
       = Inr (None, example_allocator)"
proof -
  have h: "BreakAddress (FormatConfig example_allocator) 67 = Inr (1, 0, True)"
    by code_simp
  have k: "ChunksN example_allocator \<le> 1"
    by code_simp
  from FreeBlocks_unknown [OF h, of 64] h k show ?thesis by blast
qed

text \<open>
  C10 (negative chunk in \<open>MemSyncIfMmapped\<close>). For every \<open>chunk < 0\<close> the call returns
  neither the error \<open>outOfBounds\<close> nor anything else: the bound check lets it pass and the
  index into the list of buffers panics.
\<close>

theorem MemSyncIfMmapped_negative:
  "chunk < 0 \<Longrightarrow> MemSyncIfMmapped pa chunk = Inl IndexOutOfRange"
  by (simp add: MemSyncIfMmapped_def)

theorem MemSyncIfMmapped_negative_witness:
  "(- 1 :: int) < 0
   \<and> MemSyncIfMmapped example_allocator (- 1) = Inl IndexOutOfRange"
proof -
  have h: "(- 1 :: int) < 0" by simp
  from MemSyncIfMmapped_negative [OF h] h show ?thesis by blast
qed

lemma BreakAddress_pos:
  assumes "BreakAddress f blk = Inr (i, pos, True)"
  shows "0 \<le> pos"
  using assms unfolding BreakAddress_def Let_def by (auto split: if_splits)

lemma BreakAddress_chunk:
  assumes "BreakAddress f blk = Inr (i, pos, True)" "0 \<le> ChunkSizeInBlocks f"
  shows "0 \<le> i"
proof -
  define x where "x = int64 (blk - uint (PrefixBlocks f))"
  define C where "C = ChunkSizeInBlocks f"
  have x: "0 \<le> x" and C: "C \<noteq> 0"
    and i: "i = int64 (go_div x C)"
    using assms(1) unfolding BreakAddress_def Let_def x_def [symmetric] C_def [symmetric]
    by (auto split: if_splits)
  have Cpos: "0 < C" using C assms(2) by (simp add: C_def)
  have "x div C \<le> x" using x Cpos using zdiv_mono2 [of x 1 C] by simp
  moreover have "x < 2 ^ 63" unfolding x_def by (rule int64_range)
  moreover have "0 \<le> x div C" using x Cpos by (simp add: pos_imp_zdiv_nonneg_iff)
  ultimately have "int64 (x div C) = x div C" "0 \<le> x div C"
    by (simp_all add: int64_nonneg_id)
  then show "0 \<le> i" using i x Cpos by (simp add: go_div_pos)
qed

lemma persist_returns:
  "mmapped (allocators pa ! i) \<longrightarrow> mmapper pa \<noteq> None \<Longrightarrow> \<exists>err pa'. persist pa i = Inr (err, pa')"
  by (auto simp add: persist_def Let_def split: prod.splits option.splits)

lemma FreeBitmap_returns:
  assumes "0 \<le> pos"
  shows "\<exists>bm'. FreeBitmap bm pos lng = Inr bm' \<and> length bm' = length bm"
proof -
  define l where "l = (if 8 * int (length bm) - pos < lng then 8 * int (length bm) - pos else lng)"
  have e: "FreeBitmap bm pos lng = (if 0 < l then WriteFree bm pos l else Inr bm)"
    by (simp add: FreeBitmap_def Let_def l_def mult.commute)
  show ?thesis
  proof (cases "0 < l")
    case False
    with e show ?thesis by simp
  next
    case True
    then have "0 \<le> l" "pos + l \<le> 8 * int (length bm)" "pos < 8 * int (length bm)"
      by (auto simp add: l_def split: if_splits)
    from WriteFree_paints [OF assms this] e True show ?thesis
      by (auto simp add: paints_def)
  qed
qed

lemma FreeBlocks_returns:
  assumes init: "initialised pa"
    and brk: "BreakAddress (FormatConfig pa) blk = Inr (i, pos, True)"
    and i: "i < ChunksN pa"
  shows "\<exists>err pa'. FreeBlocks pa blk lng = Inr (err, pa')"
proof -
  have C: "0 \<le> ChunkSizeInBlocks (FormatConfig pa)"
    and mm: "\<And>b. b \<in> set (allocators pa) \<Longrightarrow> mmapped b \<Longrightarrow> mmapper pa \<noteq> None"
    using init by (auto simp add: initialised_def)
  have i0: "0 \<le> i" using brk C by (rule BreakAddress_chunk)
  have p0: "0 \<le> pos" using brk by (rule BreakAddress_pos)
  define k where "k = nat i"
  have k: "k < length (allocators pa)" "i = int k" using i i0 by (simp_all add: ChunksN_def k_def)
  define bm where "bm = buffer (allocators pa ! k)"
  from FreeBitmap_returns [OF p0, of bm lng] obtain bm' where
    f: "FreeBitmap bm pos lng = Inr bm'" by blast
  define pa1 where "pa1 = pa\<lparr>allocators := (allocators pa)[k := (allocators pa ! k)\<lparr>buffer := bm'\<rparr>]\<rparr>"
  have "mmapped (allocators pa1 ! k) \<longrightarrow> mmapper pa1 \<noteq> None"
    using k(1) mm [of "allocators pa ! k"] by (simp add: pa1_def)
  from persist_returns [OF this] obtain err pa' where "persist pa1 k = Inr (err, pa')" by blast
  then have "FreeBlocks pa blk lng = Inr (err, pa')"
    using brk k f by (simp add: FreeBlocks_def doFree_def bm_def pa1_def)
  then show ?thesis by blast
qed

text \<open>
  C6 (\<open>FreeBlocks\<close> stays inside the bitmap). For every \<open>blk\<close> that \<open>BreakAddress\<close> maps to
  \<open>(i, pos, true)\<close> with \<open>i < ChunksN\<close> and for every \<open>lng\<close>: \<open>pos\<close> is not negative,
  \<open>FreeBitmap\<close> clips \<open>lng\<close> to \<open>8 * |bm| - pos\<close> and calls \<open>WriteFree\<close> only with a positive
  clipped length, which then ends inside the bitmap, and \<open>FreeBitmap\<close> does not panic; on an
  initialised allocator \<open>i\<close> is not negative either and \<open>FreeBlocks\<close> does not panic.
\<close>

theorem FreeBlocks_in_range:
  assumes brk: "BreakAddress (FormatConfig pa) blk = Inr (i, pos, True)"
    and i: "i < ChunksN pa"
  shows "0 \<le> pos
       \<and> (let bm = buffer (allocators pa ! nat i);
               max = int (length bm * 8) - pos;
               l = (if max < lng then max else lng)
           in FreeBitmap bm pos lng = (if l > 0 then WriteFree bm pos l else Inr bm)
              \<and> (l > 0 \<longrightarrow> pos + l \<le> 8 * int (length bm))
              \<and> (\<exists>bm'. FreeBitmap bm pos lng = Inr bm' \<and> length bm' = length bm))
       \<and> (initialised pa \<longrightarrow>
            0 \<le> i \<and> (\<exists>err pa'. FreeBlocks pa blk lng = Inr (err, pa')))"
proof -
  have p0: "0 \<le> pos" using brk by (rule BreakAddress_pos)
  define bm where "bm = buffer (allocators pa ! nat i)"
  from FreeBitmap_returns [OF p0, of bm lng] obtain bm' where
    f: "FreeBitmap bm pos lng = Inr bm'" and l: "length bm' = length bm" by blast
  have c: "(let max = int (length bm * 8) - pos; l = (if max < lng then max else lng)
         in FreeBitmap bm pos lng = (if l > 0 then WriteFree bm pos l else Inr bm)
              \<and> (l > 0 \<longrightarrow> pos + l \<le> 8 * int (length bm)))"
    by (simp add: FreeBitmap_def Let_def)
  have r: "0 \<le> i \<and> (\<exists>err pa'. FreeBlocks pa blk lng = Inr (err, pa'))" if "initialised pa"
    using that brk i FreeBlocks_returns [OF that brk i, of lng] BreakAddress_chunk [OF brk]
    by (simp add: initialised_def)
  from p0 f l c r show ?thesis
    unfolding bm_def Let_def by blast
qed

theorem FreeBlocks_in_range_witness:
  "BreakAddress (FormatConfig example_allocator) 60 = Inr (0, 58, True)
   \<and> 0 < ChunksN example_allocator
   \<and> initialised example_allocator
   \<and> (0::int) \<le> 58
   \<and> (let bm = buffer (allocators example_allocator ! nat 0);
           max = int (length bm * 8) - 58;
           l = (if max < 1000 then max else 1000)
       in FreeBitmap bm 58 1000 = (if l > 0 then WriteFree bm 58 l else Inr bm)
          \<and> (l > 0 \<longrightarrow> 58 + l \<le> 8 * int (length bm))
          \<and> (\<exists>bm'. FreeBitmap bm 58 1000 = Inr bm' \<and> length bm' = length bm))
   \<and> (0::int) \<le> 0
   \<and> (\<exists>err pa'. FreeBlocks example_allocator 60 1000 = Inr (err, pa'))"
proof -
  have h1: "initialised example_allocator"
    by (simp add: initialised_def example_allocator_def ChunkSizeInBlocks_def RunSizeInBlocks_def
          NewFormatConfig_def shl64_def int64_def)
  have h2: "BreakAddress (FormatConfig example_allocator) 60 = Inr (0, 58, True)"
    by code_simp
  have h3: "0 < ChunksN example_allocator"
    by code_simp
  from FreeBlocks_in_range [OF h2 h3, of 1000] h1 h2 h3 show ?thesis by blast
qed

text \<open>
  C2 (no aliasing). The code does not have the property, by the defect of \<open>findFreeSpot8\<close>
  described at C1. On a fresh store with 8-byte blocks: three allocations of 7, 1 and 1
  blocks return the blocks 2, 9 and 10; block 9 is freed; an allocation of 2 blocks then
  returns block 9, so its range holds block 10, which the third allocation returned and
  nobody freed.
\<close>

theorem AllocateBlocks_aliasing:
  "observe (run_fresh (NewFormatConfig 3)
              [Allocate 7 True, Allocate 1 True, Allocate 1 True, Free 9 1, Allocate 2 True])
     = Some (Inr ([Allocated 2 True None, Allocated 9 True None, Allocated 10 True None,
                   Freed None, Allocated 9 True None],
                  1, [[0xFF, 0x80, 0, 0, 0, 0, 0, 0]]))"
  by code_simp

text \<open>
  C4 (growth). With \<open>BlockSizeLog = 3\<close>, \<open>BitmapBlocks = 1\<close>, \<open>PrefixBlocks = 1\<close> the run size
  is 64 and the chunk size 65. On a fresh store the first \<open>AllocateBlocks(64, true)\<close>
  returns block 2 with \<open>ok = true\<close> and leaves one chunk; a second one returns block 67
  with \<open>ok = true\<close> and leaves two chunks; and a scan of all chunks from chunk 0
  (\<open>doAllocate\<close>) after appending a chunk returns that same block 67.
\<close>

theorem AllocateBlocks_growth:
  "RunSizeInBlocks (NewFormatConfig 3) = 64 \<and> ChunkSizeInBlocks (NewFormatConfig 3) = 65
   \<and> observe (run_fresh (NewFormatConfig 3) [Allocate 64 True])
       = Some (Inr ([Allocated 2 True None], 1, [replicate 8 0xFF]))
   \<and> observe (run_fresh (NewFormatConfig 3) [Allocate 64 True, Allocate 64 True])
       = Some (Inr ([Allocated 2 True None, Allocated 67 True None], 2,
                    [replicate 8 0xFF, replicate 8 0xFF]))
   \<and> (case run_fresh (NewFormatConfig 3) [Allocate 64 True] of
         Some (Inr (rs, pa)) \<Rightarrow>
           (case appendAllocator pa of
              Inr (None, pa) \<Rightarrow>
                (case doAllocate pa 64 of
                   Inr (r, pa) \<Rightarrow> r = (67, True, None) \<and> ChunksN pa = 2
                 | Inl e \<Rightarrow> False)
            | _ \<Rightarrow> False)
       | _ \<Rightarrow> False)"
  by code_simp

end
